theory Spec2Isabelle
  imports Main "HOL-Library.Word" "HOL-Library.AList"
begin

unbundle bit_operations_syntax

section \<open>Data model\<close>

text \<open>
  The engine of \<^verbatim>\<open>lib/yfs.go\<close> (the index-block version, package \<^verbatim>\<open>yfs\<close>) and the
  messages of \<^verbatim>\<open>yfs.proto\<close>. Go's \<^verbatim>\<open>uint32\<close>, \<^verbatim>\<open>uint64\<close> and \<^verbatim>\<open>byte\<close> are words of
  that width; \<^verbatim>\<open>int64\<close> sizes and times hold lengths and clock readings only and are
  \<^typ>\<open>int\<close>. A Go string is a \<^typ>\<open>string\<close>.
\<close>

type_synonym byte = "8 word"
type_synonym uint32 = "32 word"
type_synonym uint64 = "64 word"

record FileMetadata =
  Name :: string
  ModTime :: int
  CreateTime :: int
  Permissions :: uint32
  Crc32 :: uint32

record Extent =
  StartBlockId :: uint32
  BlockCount :: uint32

record IndexBlock =
  BlockIds :: "uint32 list"
  Extents :: "Extent list"
  NextIndexBlockId :: uint32
  DataSize :: uint32
  Crc32_ib :: uint32

record FileEntry =
  Metadata :: FileMetadata
  FirstIndexBlockId :: uint32
  Size :: int
  IndexBlockCount :: uint32
  DataBlockCount :: uint32

text \<open>
  A directory holds two Go maps. A map is an association list read with \<^const>\<open>map_of\<close>,
  written with \<^const>\<open>AList.update\<close> and \<^const>\<open>AList.delete\<close>; \<^verbatim>\<open>len(m) > 0\<close> is
  \<open>m \<noteq> []\<close>.

  A Go map is \<^verbatim>\<open>nil\<close> or allocated. A look-up, \<^verbatim>\<open>len\<close>, \<^verbatim>\<open>range\<close> and \<^verbatim>\<open>delete\<close> treat a
  \<^verbatim>\<open>nil\<close> map as an empty one; an assignment into a \<^verbatim>\<open>nil\<close> map panics. The maps that
  \<^verbatim>\<open>createFileSystem\<close> and \<^verbatim>\<open>createDirectoryChain\<close> make are allocated; a map that
  \<^verbatim>\<open>proto.Unmarshal\<close> in \<^verbatim>\<open>loadFileSystem\<close> found no entry for is \<^verbatim>\<open>nil\<close>.

  \<^verbatim>\<open>Directories\<close> is assigned in \<^verbatim>\<open>createDirectoryChain\<close> with no check, so the model
  keeps whether it is allocated: \<open>DirectoriesMap\<close> is \<open>None\<close> for the \<^verbatim>\<open>nil\<close> map, and
  \<open>Directories\<close> is what reading it gives. \<^verbatim>\<open>Files\<close> is assigned in \<^verbatim>\<open>WriteFile\<close> only,
  behind \<^verbatim>\<open>if parentDir.Files == nil\<close>, which allocates it first: a \<^verbatim>\<open>nil\<close> and an empty
  \<^verbatim>\<open>Files\<close> map behave alike everywhere, and the list stands for both.
\<close>

datatype DirectoryEntry =
  DirectoryEntry (Metadata_d: FileMetadata)
                 (Files: "(string \<times> FileEntry) list")
                 (DirectoriesMap: "(string \<times> DirectoryEntry) list option")

definition Directories :: "DirectoryEntry \<Rightarrow> (string \<times> DirectoryEntry) list" where
  "Directories d = (case DirectoriesMap d of None \<Rightarrow> [] | Some ds \<Rightarrow> ds)"

record BlockBitmap =
  data_bm :: "byte list"
  totalBlocks :: uint64
  searchPos :: uint64
  dirty :: bool

text \<open>
  The engine state: the fields of \<^verbatim>\<open>YFS\<close> that the operations read or write, with
  \<^verbatim>\<open>header.Root\<close> as \<open>Root\<close> and the bytes of the file at \<^verbatim>\<open>blocksPath\<close> as
  \<open>blocksFile\<close>. Host input and output on the three files is taken to succeed; what
  \<^verbatim>\<open>saveRoot\<close> and \<^verbatim>\<open>saveBitmap\<close> write to disk is not part of the state.
\<close>

record YFS =
  blockSize :: uint32
  Root :: DirectoryEntry
  bitmap :: BlockBitmap
  blocksFile :: "byte list"
  checksumEnabled :: bool

text \<open>
  What the engine takes from libraries: the protobuf encoding of an index block
  (\<^verbatim>\<open>proto.Marshal\<close>, \<^verbatim>\<open>proto.Unmarshal\<close>) and the two CRC-32 sums over a
  \<^verbatim>\<open>fmt.Sprintf\<close> rendering (\<^verbatim>\<open>"%v%v%d"\<close> of block ids, extents and next pointer for an
  index block; \<^verbatim>\<open>"%s%d%d%d"\<close> of name, times and permissions for metadata). They are
  parameters of the model.
\<close>

record Lib =
  marshalIndexBlock :: "IndexBlock \<Rightarrow> byte list"
  unmarshalIndexBlock :: "byte list \<Rightarrow> IndexBlock option"
  crcIndexBlock :: "uint32 list \<Rightarrow> Extent list \<Rightarrow> uint32 \<Rightarrow> uint32"
  crcMetadata :: "string \<Rightarrow> int \<Rightarrow> int \<Rightarrow> uint32 \<Rightarrow> uint32"

text \<open>Every \<^verbatim>\<open>fmt.Errorf\<close> of the engine, and the run-time panics, as values.\<close>

datatype error =
    InvalidBlockID
  | DataExceedsBlockSize
  | EndOfFile
  | InvalidDataLength
  | UnmarshalFailed
  | IndexChecksumMismatch
  | NoFreeBlocks
  | CouldNotAllocate
  | DirectoryNotFound
  | PathIsDirectory
  | FileNotFound
  | MetadataChecksumFailed
  | DirectoryExists
  | NotADirectory
  | DirectoryNotEmpty
  | CannotDeleteRoot
  | CircularReference
  | InvalidDataBlockID
  | InvalidExtent
  | Panic

type_synonym 'a result = "error + 'a"

definition NullBlockID :: uint32 where
  "NullBlockID = 0"

definition HeaderSize :: nat where
  "HeaderSize = 4"

definition MaxBlocksPerIndex :: nat where
  "MaxBlocksPerIndex = 1000"

section \<open>Paths\<close>

definition slash :: "char \<Rightarrow> bool" where
  "slash c = (c = CHR ''/'')"

text \<open>\<^verbatim>\<open>strings.Trim(path, "/")\<close>\<close>

definition trimSlash :: "string \<Rightarrow> string" where
  "trimSlash s = rev (dropWhile slash (rev (dropWhile slash s)))"

text \<open>\<^verbatim>\<open>strings.Split(s, "/")\<close>: never empty, \<^verbatim>\<open>Split("", "/")\<close> is \<^verbatim>\<open>[""]\<close>.\<close>

fun splitSlash :: "string \<Rightarrow> string list" where
  "splitSlash [] = [[]]"
| "splitSlash (c # cs) =
     (if slash c then [] # splitSlash cs
      else (c # hd (splitSlash cs)) # tl (splitSlash cs))"

text \<open>\<^verbatim>\<open>strings.Join(parts, "/")\<close>\<close>

fun joinSlash :: "string list \<Rightarrow> string" where
  "joinSlash [] = []"
| "joinSlash [p] = p"
| "joinSlash (p # q # ps) = p @ CHR ''/'' # joinSlash (q # ps)"

text \<open>The parts \<^verbatim>\<open>createDirectoryChain\<close> does not skip.\<close>

definition nonEmptyParts :: "string list \<Rightarrow> string list" where
  "nonEmptyParts ps = filter (\<lambda>p. p \<noteq> []) ps"

section \<open>Namespace\<close>

text \<open>
  A \<^verbatim>\<open>*DirectoryEntry\<close> is the place of a directory in the tree: the names that lead to
  it from the root. \<open>dirAt\<close> reads the directory at a place, \<open>updateDir\<close> writes
  through the pointer.
\<close>

fun dirAt :: "DirectoryEntry \<Rightarrow> string list \<Rightarrow> DirectoryEntry option" where
  "dirAt d [] = Some d"
| "dirAt d (n # ns) =
     (case map_of (Directories d) n of
        None \<Rightarrow> None
      | Some sub \<Rightarrow> dirAt sub ns)"

fun updateDir :: "(DirectoryEntry \<Rightarrow> DirectoryEntry) \<Rightarrow> string list \<Rightarrow> DirectoryEntry \<Rightarrow> DirectoryEntry" where
  "updateDir f [] d = f d"
| "updateDir f (n # ns) d =
     (case map_of (Directories d) n of
        None \<Rightarrow> d
      | Some sub \<Rightarrow>
          DirectoryEntry (Metadata_d d) (Files d)
            (Some (AList.update n (updateDir f ns sub) (Directories d))))"

definition updateMetadataChecksum :: "Lib \<Rightarrow> bool \<Rightarrow> FileMetadata \<Rightarrow> FileMetadata" where
  "updateMetadataChecksum L enabled m =
     (if \<not> enabled then m
      else m\<lparr>Crc32 := crcMetadata L (Name m) (ModTime m) (CreateTime m) (Permissions m)\<rparr>)"

definition verifyMetadataChecksum :: "Lib \<Rightarrow> bool \<Rightarrow> FileMetadata \<Rightarrow> bool" where
  "verifyMetadataChecksum L enabled m =
     (if \<not> enabled then True
      else Crc32 m = crcMetadata L (Name m) (ModTime m) (CreateTime m) (Permissions m))"

text \<open>
  \<^verbatim>\<open>findEntryUnsafe\<close> returns the directory pointer (its place and the directory there),
  the file pointer and \<^verbatim>\<open>isDir\<close>. The walk over \<^verbatim>\<open>parts[:len(parts)-1]\<close> is
  \<^const>\<open>dirAt\<close>; the final name is looked up among the directories first.
\<close>

definition findEntryUnsafe ::
  "DirectoryEntry \<Rightarrow> string \<Rightarrow> (string list \<times> DirectoryEntry \<times> FileEntry option \<times> bool) result" where
  "findEntryUnsafe root path =
     (let p = trimSlash path in
      if p = [] then Inr ([], root, None, True)
      else
        let parts = splitSlash p; finalName = last parts in
        case dirAt root (butlast parts) of
          None \<Rightarrow> Inl DirectoryNotFound
        | Some currentDir \<Rightarrow>
            (case map_of (Directories currentDir) finalName of
               Some subDir \<Rightarrow> Inr (butlast parts @ [finalName], subDir, None, True)
             | None \<Rightarrow>
                 (case map_of (Files currentDir) finalName of
                    Some file \<Rightarrow> Inr (butlast parts, currentDir, Some file, False)
                  | None \<Rightarrow> Inr (butlast parts, currentDir, None, False))))"

text \<open>
  \<^verbatim>\<open>saveRoot\<close>: the checksum of the root's metadata is refreshed in memory before the
  header is marshalled and written.
\<close>

definition saveRoot :: "Lib \<Rightarrow> YFS \<Rightarrow> YFS" where
  "saveRoot L s =
     (if checksumEnabled s
      then s\<lparr>Root := DirectoryEntry (updateMetadataChecksum L (checksumEnabled s) (Metadata_d (Root s)))
                        (Files (Root s)) (DirectoriesMap (Root s))\<rparr>
      else s)"

definition newDirectory :: "Lib \<Rightarrow> bool \<Rightarrow> int \<Rightarrow> string \<Rightarrow> DirectoryEntry" where
  "newDirectory L enabled now part =
     DirectoryEntry
       (updateMetadataChecksum L enabled
          \<lparr>Name = part, ModTime = now, CreateTime = now, Permissions = 0, Crc32 = 0\<rparr>)
       [] (Some [])"

text \<open>
  The loop of \<^verbatim>\<open>createDirectoryChain\<close> over \<^verbatim>\<open>strings.Split(path, "/")\<close>, from
  \<^verbatim>\<open>currentDir\<close> down: an empty part is skipped, a missing directory is made and entered.
  \<^verbatim>\<open>currentDir.Directories[part] = newDir\<close> panics when the map of \<^verbatim>\<open>currentDir\<close> is
  \<^verbatim>\<open>nil\<close>; nothing recovers a panic, so the run ends there.
\<close>

fun createDirectoryParts ::
  "Lib \<Rightarrow> bool \<Rightarrow> int \<Rightarrow> string list \<Rightarrow> DirectoryEntry \<Rightarrow> DirectoryEntry result" where
  "createDirectoryParts L enabled now [] currentDir = Inr currentDir"
| "createDirectoryParts L enabled now (part # ps) currentDir =
     (if part = [] then createDirectoryParts L enabled now ps currentDir
      else
        case map_of (Directories currentDir) part of
          None \<Rightarrow>
            (case DirectoriesMap currentDir of
               None \<Rightarrow> Inl Panic
             | Some ds \<Rightarrow>
                 (case createDirectoryParts L enabled now ps (newDirectory L enabled now part) of
                    Inl e \<Rightarrow> Inl e
                  | Inr newDir \<Rightarrow>
                      Inr (DirectoryEntry (Metadata_d currentDir) (Files currentDir)
                             (Some (AList.update part newDir ds)))))
        | Some sub \<Rightarrow>
            (case createDirectoryParts L enabled now ps sub of
               Inl e \<Rightarrow> Inl e
             | Inr sub' \<Rightarrow>
                 Inr (DirectoryEntry (Metadata_d currentDir) (Files currentDir)
                        (Some (AList.update part sub' (Directories currentDir))))))"

definition createDirectoryChain :: "Lib \<Rightarrow> int \<Rightarrow> string \<Rightarrow> YFS \<Rightarrow> unit result \<times> YFS" where
  "createDirectoryChain L now path s =
     (if path = [] then (Inr (), s)
      else
        case createDirectoryParts L (checksumEnabled s) now (splitSlash path) (Root s) of
          Inl e \<Rightarrow> (Inl e, s)
        | Inr root \<Rightarrow> (Inr (), s\<lparr>Root := root\<rparr>))"

definition CreateDirectory :: "Lib \<Rightarrow> int \<Rightarrow> YFS \<Rightarrow> string \<Rightarrow> unit result \<times> YFS" where
  "CreateDirectory L now s path =
     (case findEntryUnsafe (Root s) path of
        Inr (_, _, _, True) \<Rightarrow> (Inl DirectoryExists, s)
      | _ \<Rightarrow>
          (case createDirectoryChain L now path s of
             (Inl e, s') \<Rightarrow> (Inl e, s')
           | (Inr _, s') \<Rightarrow> (Inr (), saveRoot L s')))"

text \<open>
  \<^verbatim>\<open>DeleteDirectory\<close> holds the engine's write lock and, past its checks, calls the
  locking \<^verbatim>\<open>findEntry\<close>, whose \<^verbatim>\<open>RLock\<close> on the same \<^verbatim>\<open>sync.RWMutex\<close> waits for a
  writer that is the caller itself: the call does not return. \<open>None\<close> is that outcome.
\<close>

definition DeleteDirectory :: "YFS \<Rightarrow> string \<Rightarrow> (unit result \<times> YFS) option" where
  "DeleteDirectory s path =
     (case findEntryUnsafe (Root s) path of
        Inl e \<Rightarrow> Some (Inl e, s)
      | Inr (loc, dir, file, isDir) \<Rightarrow>
          if \<not> isDir then Some (Inl NotADirectory, s)
          else if Files dir \<noteq> [] \<or> Directories dir \<noteq> [] then Some (Inl DirectoryNotEmpty, s)
          else
            let pathParts = splitSlash (trimSlash path) in
            if length pathParts = 1 \<and> pathParts ! 0 = [] then Some (Inl CannotDeleteRoot, s)
            else None)"

section \<open>Bitmap allocator\<close>

definition isBlockFree :: "BlockBitmap \<Rightarrow> uint64 \<Rightarrow> bool" where
  "isBlockFree bm blockPos =
     (let byteIndex = unat (blockPos div 8); bitIndex = unat (blockPos mod 8) in
      if byteIndex \<ge> length (data_bm bm) then False
      else (data_bm bm ! byteIndex) AND push_bit bitIndex 1 = 0)"

text \<open>The growth loop of \<^verbatim>\<open>markBlockUsed\<close>: 1024 more bytes and 8192 more blocks each turn.\<close>

function expandBitmap :: "nat \<Rightarrow> BlockBitmap \<Rightarrow> BlockBitmap" where
  "expandBitmap byteIndex bm =
     (if byteIndex \<ge> length (data_bm bm)
      then expandBitmap byteIndex
             (bm\<lparr>data_bm := data_bm bm @ replicate 1024 0, totalBlocks := totalBlocks bm + 8192\<rparr>)
      else bm)"
  by pat_completeness auto
termination
  by (relation "measure (\<lambda>(byteIndex, bm). Suc byteIndex - length (data_bm bm))") auto

definition markBlockUsed :: "BlockBitmap \<Rightarrow> uint64 \<Rightarrow> BlockBitmap" where
  "markBlockUsed bm blockPos =
     (let byteIndex = unat (blockPos div 8); bitIndex = unat (blockPos mod 8);
          bm' = expandBitmap byteIndex bm in
      bm'\<lparr>data_bm := (data_bm bm')[byteIndex := (data_bm bm' ! byteIndex) OR push_bit bitIndex 1]\<rparr>)"

definition markBlockFree :: "BlockBitmap \<Rightarrow> uint64 \<Rightarrow> BlockBitmap" where
  "markBlockFree bm blockPos =
     (let byteIndex = unat (blockPos div 8); bitIndex = unat (blockPos mod 8) in
      if byteIndex < length (data_bm bm)
      then bm\<lparr>data_bm := (data_bm bm)[byteIndex := (data_bm bm ! byteIndex) AND NOT (push_bit bitIndex 1)],
              dirty := True\<rparr>
      else bm)"

definition freeBlocks :: "uint32 list \<Rightarrow> BlockBitmap \<Rightarrow> BlockBitmap" where
  "freeBlocks blockIDs bm =
     (fold (\<lambda>blockID b. if blockID \<noteq> NullBlockID then markBlockFree b (ucast (blockID - 1)) else b)
        blockIDs bm)\<lparr>dirty := True\<rparr>"


text \<open>
  Both allocators scan \<^verbatim>\<open>pos := (searchPos + i) % totalBlocks\<close> for \<open>i\<close> from 0 below
  \<^verbatim>\<open>totalBlocks\<close> and stop at the first position that passes their test.
\<close>

function scanPositions :: "(uint64 \<Rightarrow> bool) \<Rightarrow> BlockBitmap \<Rightarrow> nat \<Rightarrow> uint64 option" where
  "scanPositions ok bm i =
     (if i < unat (totalBlocks bm)
      then (let pos = (searchPos bm + of_nat i) mod totalBlocks bm in
            if ok pos then Some pos else scanPositions ok bm (Suc i))
      else None)"
  by pat_completeness auto
termination
  by (relation "measure (\<lambda>(ok, bm, i). unat (totalBlocks bm) - i)") auto

text \<open>The inner test of \<^verbatim>\<open>allocateBlocks\<close>: \<open>count\<close> free positions from \<open>pos\<close>, all below capacity.\<close>

definition canAllocate :: "BlockBitmap \<Rightarrow> uint32 \<Rightarrow> uint64 \<Rightarrow> bool" where
  "canAllocate bm count pos =
     list_all (\<lambda>j. \<not> (pos + of_nat j \<ge> totalBlocks bm \<or> \<not> isBlockFree bm (pos + of_nat j)))
       [0..<unat count]"

definition allocateRun :: "BlockBitmap \<Rightarrow> uint32 \<Rightarrow> uint64 \<Rightarrow> uint32 list \<times> BlockBitmap" where
  "allocateRun bm count pos =
     (let bm' = foldl (\<lambda>b j. markBlockUsed b (pos + of_nat j)) bm [0..<unat count];
          allocatedBlocks = map (\<lambda>j. ucast (pos + of_nat j + 1)) [0..<unat count] in
      (allocatedBlocks, bm'\<lparr>searchPos := pos + ucast count, dirty := True\<rparr>))"

text \<open>
  The outer loop of \<^verbatim>\<open>allocateBlocksIndividual\<close>, \<open>k\<close> turns to go: a turn whose scan
  finds nothing adds nothing.
\<close>

fun allocateEach :: "nat \<Rightarrow> BlockBitmap \<Rightarrow> uint32 list \<Rightarrow> uint32 list \<times> BlockBitmap" where
  "allocateEach 0 bm allocatedBlocks = (allocatedBlocks, bm)"
| "allocateEach (Suc k) bm allocatedBlocks =
     (case scanPositions (isBlockFree bm) bm 0 of
        None \<Rightarrow> allocateEach k bm allocatedBlocks
      | Some pos \<Rightarrow>
          allocateEach k ((markBlockUsed bm pos)\<lparr>searchPos := pos + 1\<rparr>)
            (allocatedBlocks @ [ucast (pos + 1)]))"

definition allocateBlocksIndividual :: "uint32 \<Rightarrow> BlockBitmap \<Rightarrow> uint32 list result \<times> BlockBitmap" where
  "allocateBlocksIndividual count bm =
     (case allocateEach (unat count) bm [] of
        (allocatedBlocks, bm') \<Rightarrow>
          if length allocatedBlocks \<noteq> unat count
          then (Inl CouldNotAllocate,
                fold (\<lambda>blockID b. markBlockFree b (ucast (blockID - 1))) allocatedBlocks bm')
          else (Inr allocatedBlocks, bm'\<lparr>dirty := True\<rparr>))"

definition allocateBlocks :: "uint32 \<Rightarrow> BlockBitmap \<Rightarrow> uint32 list result \<times> BlockBitmap" where
  "allocateBlocks count bm =
     (if count = 0 then (Inr [], bm)
      else
        case scanPositions (\<lambda>pos. isBlockFree bm pos \<and> canAllocate bm count pos) bm 0 of
          Some pos \<Rightarrow> (case allocateRun bm count pos of (ids, bm') \<Rightarrow> (Inr ids, bm'))
        | None \<Rightarrow>
            if count > 1 then allocateBlocksIndividual count bm
            else (Inl NoFreeBlocks, bm))"

section \<open>Block device\<close>

text \<open>\<^verbatim>\<open>binary.LittleEndian.PutUint32\<close> and \<^verbatim>\<open>binary.LittleEndian.Uint32\<close>\<close>

definition PutUint32 :: "uint32 \<Rightarrow> byte list" where
  "PutUint32 v = [ucast v, ucast (drop_bit 8 v), ucast (drop_bit 16 v), ucast (drop_bit 24 v)]"

definition Uint32 :: "byte list \<Rightarrow> uint32" where
  "Uint32 b =
     ucast (b ! 0) OR push_bit 8 (ucast (b ! 1)) OR push_bit 16 (ucast (b ! 2))
       OR push_bit 24 (ucast (b ! 3))"

text \<open>
  \<^verbatim>\<open>int64(HeaderSize) + int64(blockSize)*int64(blockID-1)\<close> in 64-bit two's complement,
  and \<open>-1\<close> for the null block.
\<close>

definition calculateBlockOffset :: "YFS \<Rightarrow> uint32 \<Rightarrow> int" where
  "calculateBlockOffset s blockID =
     (if blockID = NullBlockID then -1
      else sint (of_nat HeaderSize + ucast (blockSize s) * ucast (blockID - 1) :: uint64))"

text \<open>
  The file at \<^verbatim>\<open>blocksPath\<close> is its bytes. A write at an offset past the end leaves
  zeros in between; a read at or past the end is \<^verbatim>\<open>io.EOF\<close>, and a short read leaves
  the rest of the buffer zero.
\<close>

definition writeAt :: "byte list \<Rightarrow> nat \<Rightarrow> byte list \<Rightarrow> byte list" where
  "writeAt f off bs =
     take off f @ replicate (off - length f) 0 @ bs @ drop (off + length bs) f"

definition readAt :: "byte list \<Rightarrow> nat \<Rightarrow> nat \<Rightarrow> byte list" where
  "readAt f off n =
     take n (drop off f) @ replicate (n - length (take n (drop off f))) 0"

text \<open>The byte a read sees at an offset of the file: zero past the end.\<close>

definition byteAt :: "byte list \<Rightarrow> nat \<Rightarrow> byte" where
  "byteAt f i = (if i < length f then f ! i else 0)"

definition writeBlock :: "YFS \<Rightarrow> uint32 \<Rightarrow> byte list \<Rightarrow> unit result \<times> YFS" where
  "writeBlock s blockID bytes =
     (let offset = calculateBlockOffset s blockID in
      if offset < 0 then (Inl InvalidBlockID, s)
      else if int (length bytes) > int (unat (blockSize s)) - 4 then (Inl DataExceedsBlockSize, s)
      else
        let blockData = PutUint32 (of_nat (length bytes)) @ bytes
                          @ replicate (unat (blockSize s) - 4 - length bytes) 0 in
        (Inr (), s\<lparr>blocksFile := writeAt (blocksFile s) (nat offset) blockData\<rparr>))"

definition readBlock :: "YFS \<Rightarrow> uint32 \<Rightarrow> byte list result" where
  "readBlock s blockID =
     (let offset = calculateBlockOffset s blockID in
      if offset < 0 then Inl InvalidBlockID
      else if blockSize s \<noteq> 0 \<and> nat offset \<ge> length (blocksFile s) then Inl EndOfFile
      else if unat (blockSize s) < 4 then Inl Panic
      else
        let blockData = readAt (blocksFile s) (nat offset) (unat (blockSize s));
            dataLength = Uint32 (take 4 blockData) in
        if dataLength > of_nat (length blockData - 4) then Inl InvalidDataLength
        else Inr (take (unat dataLength) (drop 4 blockData)))"

section \<open>Index chains\<close>

definition indexChecksum :: "Lib \<Rightarrow> IndexBlock \<Rightarrow> uint32" where
  "indexChecksum L ib = crcIndexBlock L (BlockIds ib) (Extents ib) (NextIndexBlockId ib)"

definition writeIndexBlock :: "Lib \<Rightarrow> YFS \<Rightarrow> uint32 \<Rightarrow> IndexBlock \<Rightarrow> unit result \<times> YFS" where
  "writeIndexBlock L s blockID indexBlock =
     (let ib = (if checksumEnabled s then indexBlock\<lparr>Crc32_ib := indexChecksum L indexBlock\<rparr>
                else indexBlock) in
      writeBlock s blockID (marshalIndexBlock L ib))"

definition readIndexBlock :: "Lib \<Rightarrow> YFS \<Rightarrow> uint32 \<Rightarrow> IndexBlock result" where
  "readIndexBlock L s blockID =
     (case readBlock s blockID of
        Inl e \<Rightarrow> Inl e
      | Inr bytes \<Rightarrow>
          (case unmarshalIndexBlock L bytes of
             None \<Rightarrow> Inl UnmarshalFailed
           | Some indexBlock \<Rightarrow>
               if checksumEnabled s \<and> Crc32_ib indexBlock \<noteq> 0
                  \<and> Crc32_ib indexBlock \<noteq> indexChecksum L indexBlock
               then Inl IndexChecksumMismatch
               else Inr indexBlock))"

text \<open>Two states that differ in the bits and flags of the bitmap at most.\<close>

definition bitmapOnly :: "YFS \<Rightarrow> YFS \<Rightarrow> bool" where
  "bitmapOnly s s' =
     (blockSize s' = blockSize s \<and> blocksFile s' = blocksFile s
      \<and> checksumEnabled s' = checksumEnabled s \<and> Root s' = Root s
      \<and> totalBlocks (bitmap s') = totalBlocks (bitmap s)
      \<and> length (data_bm (bitmap s')) = length (data_bm (bitmap s)))"

text \<open>The blocks an extent names: \<^verbatim>\<open>extent.StartBlockId+i\<close> for \<open>i\<close> below \<^verbatim>\<open>extent.BlockCount\<close>.\<close>

definition extentBlocks :: "Extent \<Rightarrow> uint32 list" where
  "extentBlocks extent = map (\<lambda>i. StartBlockId extent + of_nat i) [0..<unat (BlockCount extent)]"

text \<open>
  \<^verbatim>\<open>freeFileBlocks\<close> follows next pointers with no record of the blocks it has seen, so
  on a chain that closes on itself it does not return: \<open>None\<close>.
\<close>

partial_function (option) freeFileBlocks :: "Lib \<Rightarrow> uint32 \<Rightarrow> YFS \<Rightarrow> (unit result \<times> YFS) option" where
  "freeFileBlocks L currentIndexBlockID s =
     (if currentIndexBlockID = NullBlockID then Some (Inr (), s)
      else
        case readIndexBlock L s currentIndexBlockID of
          Inl e \<Rightarrow> Some (Inl e, s)
        | Inr indexBlock \<Rightarrow>
            freeFileBlocks L (NextIndexBlockId indexBlock)
              (s\<lparr>bitmap :=
                   freeBlocks [currentIndexBlockID]
                     (fold (\<lambda>extent b. freeBlocks (extentBlocks extent) b) (Extents indexBlock)
                        (freeBlocks (BlockIds indexBlock) (bitmap s)))\<rparr>))"

declare freeFileBlocks.simps [code]

text \<open>
  The blocks \<^verbatim>\<open>freeFileBlocks\<close> hands to \<^verbatim>\<open>freeBlocks\<close> in one turn of its loop: the
  data blocks of the index block, the blocks of its extents, and the index block itself.
\<close>

definition namedBlocks :: "uint32 \<Rightarrow> IndexBlock \<Rightarrow> uint32 list" where
  "namedBlocks currentIndexBlockID indexBlock =
     BlockIds indexBlock @ concat (map extentBlocks (Extents indexBlock)) @ [currentIndexBlockID]"

text \<open>
  A walk along next pointers, as the loops over \<^verbatim>\<open>currentIndexBlockID\<close> make it: from an
  index block id, through the index blocks that \<^verbatim>\<open>readIndexBlock\<close> returns, each listed
  with its id, to the pointer the walk has arrived at. A chain that ends is a walk that
  arrives at \<^const>\<open>NullBlockID\<close>.
\<close>

inductive indexChain :: "Lib \<Rightarrow> YFS \<Rightarrow> uint32 \<Rightarrow> (uint32 \<times> IndexBlock) list \<Rightarrow> uint32 \<Rightarrow> bool" where
  chain_end: "indexChain L s currentIndexBlockID [] currentIndexBlockID"
| chain_step: "currentIndexBlockID \<noteq> NullBlockID
     \<Longrightarrow> readIndexBlock L s currentIndexBlockID = Inr indexBlock
     \<Longrightarrow> indexChain L s (NextIndexBlockId indexBlock) rest lastPointer
     \<Longrightarrow> indexChain L s currentIndexBlockID ((currentIndexBlockID, indexBlock) # rest) lastPointer"

code_pred indexChain .

definition chainBlocks :: "(uint32 \<times> IndexBlock) list \<Rightarrow> uint32 list" where
  "chainBlocks chain = concat (map (\<lambda>(blockID, indexBlock). namedBlocks blockID indexBlock) chain)"

text \<open>The write loop of \<^verbatim>\<open>writeFileToBlocks\<close>: slice \<open>i\<close> is \<^verbatim>\<open>data[i*blockSize : end]\<close>.\<close>

fun writeDataBlocks :: "YFS \<Rightarrow> byte list \<Rightarrow> nat \<Rightarrow> uint32 list \<Rightarrow> unit result \<times> YFS" where
  "writeDataBlocks s bytes i [] = (Inr (), s)"
| "writeDataBlocks s bytes i (blockID # rest) =
     (let start = i * unat (blockSize s);
          end' = min (start + unat (blockSize s)) (length bytes) in
      if start > end' then (Inl Panic, s)
      else
        case writeBlock s blockID (take (end' - start) (drop start bytes)) of
          (Inl e, s') \<Rightarrow> (Inl e, s')
        | (Inr _, s') \<Rightarrow> writeDataBlocks s' bytes (Suc i) rest)"

text \<open>
  The first loop of \<^verbatim>\<open>createIndexBlocks\<close>, over what is left of \<^verbatim>\<open>dataBlocks\<close>:
  one block allocated and one record written per \<^verbatim>\<open>MaxBlocksPerIndex\<close> ids.
\<close>

function createIndexRecords ::
  "Lib \<Rightarrow> YFS \<Rightarrow> uint32 list \<Rightarrow> uint32 list \<Rightarrow> uint32 list result \<times> YFS" where
  "createIndexRecords L s dataBlocks indexBlocks =
     (if dataBlocks = [] then (Inr indexBlocks, s)
      else
        case allocateBlocks 1 (bitmap s) of
          (Inl e, bm) \<Rightarrow> (Inl e, s\<lparr>bitmap := freeBlocks indexBlocks bm\<rparr>)
        | (Inr [], bm) \<Rightarrow> (Inl Panic, s\<lparr>bitmap := bm\<rparr>)
        | (Inr (indexBlockID # _), bm) \<Rightarrow>
            (let blockIDs = take MaxBlocksPerIndex dataBlocks;
                 indexBlock = \<lparr>BlockIds = blockIDs, Extents = [], NextIndexBlockId = 0,
                               DataSize = of_nat (length blockIDs * unat (blockSize s)),
                               Crc32_ib = 0\<rparr> in
             case writeIndexBlock L (s\<lparr>bitmap := bm\<rparr>) indexBlockID indexBlock of
               (Inl e, s') \<Rightarrow>
                 (Inl e, s'\<lparr>bitmap := freeBlocks (indexBlocks @ [indexBlockID]) (bitmap s')\<rparr>)
             | (Inr _, s') \<Rightarrow>
                 createIndexRecords L s' (drop MaxBlocksPerIndex dataBlocks)
                   (indexBlocks @ [indexBlockID])))"
  by pat_completeness auto
termination
  by (relation "measure (\<lambda>(L, s, dataBlocks, indexBlocks). length dataBlocks)")
     (auto simp: MaxBlocksPerIndex_def)

text \<open>The second loop: each record but the last is read back and written again with its next pointer.\<close>

fun linkIndexBlocks :: "Lib \<Rightarrow> YFS \<Rightarrow> uint32 list \<Rightarrow> unit result \<times> YFS" where
  "linkIndexBlocks L s (a # b # rest) =
     (case readIndexBlock L s a of
        Inl e \<Rightarrow> (Inl e, s)
      | Inr indexBlock \<Rightarrow>
          (case writeIndexBlock L s a (indexBlock\<lparr>NextIndexBlockId := b\<rparr>) of
             (Inl e, s') \<Rightarrow> (Inl e, s')
           | (Inr _, s') \<Rightarrow> linkIndexBlocks L s' (b # rest)))"
| "linkIndexBlocks L s indexBlocks = (Inr (), s)"

definition createIndexBlocks :: "Lib \<Rightarrow> YFS \<Rightarrow> uint32 list \<Rightarrow> uint32 result \<times> YFS" where
  "createIndexBlocks L s dataBlocks =
     (if dataBlocks = [] then (Inr NullBlockID, s)
      else
        case createIndexRecords L s dataBlocks [] of
          (Inl e, s') \<Rightarrow> (Inl e, s')
        | (Inr indexBlocks, s') \<Rightarrow>
            (case linkIndexBlocks L s' indexBlocks of
               (Inl e, s'') \<Rightarrow> (Inl e, s'')
             | (Inr _, s'') \<Rightarrow>
                 (case indexBlocks of
                    [] \<Rightarrow> (Inl Panic, s'')
                  | first # _ \<Rightarrow> (Inr first, s''))))"

text \<open>
  \<^verbatim>\<open>writeFileToBlocks\<close>. The error of \<^verbatim>\<open>freeFileBlocks\<close> is dropped, as the source
  drops it; \<^verbatim>\<open>blocksNeeded\<close> is computed on \<^verbatim>\<open>int\<close> and cut to \<^verbatim>\<open>uint32\<close>.
\<close>

definition freeOldChain :: "Lib \<Rightarrow> uint32 \<Rightarrow> YFS \<Rightarrow> YFS option" where
  "freeOldChain L existingFirstIndexBlockID s =
     (if existingFirstIndexBlockID \<noteq> NullBlockID
      then map_option snd (freeFileBlocks L existingFirstIndexBlockID s)
      else Some s)"

definition writeFileToBlocks :: "Lib \<Rightarrow> byte list \<Rightarrow> uint32 \<Rightarrow> YFS \<Rightarrow> (uint32 result \<times> YFS) option" where
  "writeFileToBlocks L bytes existingFirstIndexBlockID s =
     (if bytes = [] then
        map_option (\<lambda>s'. (Inr NullBlockID, s')) (freeOldChain L existingFirstIndexBlockID s)
      else if blockSize s = 0 then Some (Inl Panic, s)
      else
        let blocksNeeded = (length bytes + unat (blockSize s) - 1) div unat (blockSize s) in
        case allocateBlocks (of_nat blocksNeeded) (bitmap s) of
          (Inl e, bm) \<Rightarrow> Some (Inl e, s\<lparr>bitmap := bm\<rparr>)
        | (Inr dataBlocks, bm) \<Rightarrow>
            (case writeDataBlocks (s\<lparr>bitmap := bm\<rparr>) bytes 0 dataBlocks of
               (Inl e, s1) \<Rightarrow> Some (Inl e, s1\<lparr>bitmap := freeBlocks dataBlocks (bitmap s1)\<rparr>)
             | (Inr _, s1) \<Rightarrow>
                 (case createIndexBlocks L s1 dataBlocks of
                    (Inl e, s2) \<Rightarrow> Some (Inl e, s2\<lparr>bitmap := freeBlocks dataBlocks (bitmap s2)\<rparr>)
                  | (Inr firstIndexBlockID, s2) \<Rightarrow>
                      map_option (\<lambda>s'. (Inr firstIndexBlockID, s'))
                        (freeOldChain L existingFirstIndexBlockID s2))))"

text \<open>The inner loop of \<^verbatim>\<open>readFileFromBlocks\<close>, over the block ids of one index block.\<close>

fun readDataBlocks :: "YFS \<Rightarrow> uint32 list \<Rightarrow> int \<Rightarrow> byte list \<Rightarrow> int \<Rightarrow> (byte list \<times> int) result" where
  "readDataBlocks s [] fileSize result bytesRead = Inr (result, bytesRead)"
| "readDataBlocks s (blockID # rest) fileSize result bytesRead =
     (if bytesRead \<ge> fileSize then Inr (result, bytesRead)
      else
        case readBlock s blockID of
          Inl e \<Rightarrow> Inl e
        | Inr blockData \<Rightarrow>
            (let remainingBytes = fileSize - bytesRead;
                 bytesToTake = (if int (length blockData) > remainingBytes then remainingBytes
                                else int (length blockData)) in
             readDataBlocks s rest fileSize (result @ take (nat bytesToTake) blockData)
               (bytesRead + bytesToTake)))"

text \<open>
  The outer loop runs while the chain goes on and bytes are missing; a chain that closes
  on itself and yields no bytes keeps it running: \<open>None\<close>.
\<close>

partial_function (option) readIndexChain ::
  "Lib \<Rightarrow> YFS \<Rightarrow> uint32 \<Rightarrow> int \<Rightarrow> byte list \<Rightarrow> int \<Rightarrow> byte list result option" where
  "readIndexChain L s currentIndexBlockID fileSize result bytesRead =
     (if currentIndexBlockID \<noteq> NullBlockID \<and> bytesRead < fileSize then
        case readIndexBlock L s currentIndexBlockID of
          Inl e \<Rightarrow> Some (Inl e)
        | Inr indexBlock \<Rightarrow>
            (case readDataBlocks s (BlockIds indexBlock) fileSize result bytesRead of
               Inl e \<Rightarrow> Some (Inl e)
             | Inr (result', bytesRead') \<Rightarrow>
                 readIndexChain L s (NextIndexBlockId indexBlock) fileSize result' bytesRead')
      else Some (Inr result))"

declare readIndexChain.simps [code]

definition readFileFromBlocks :: "Lib \<Rightarrow> YFS \<Rightarrow> uint32 \<Rightarrow> int \<Rightarrow> byte list result option" where
  "readFileFromBlocks L s firstIndexBlockID fileSize =
     (if firstIndexBlockID = NullBlockID \<or> fileSize = 0 then Some (Inr [])
      else readIndexChain L s firstIndexBlockID fileSize [] 0)"

section \<open>Engine facade\<close>

definition saveBitmap :: "YFS \<Rightarrow> YFS" where
  "saveBitmap s = (if dirty (bitmap s) then s\<lparr>bitmap := (bitmap s)\<lparr>dirty := False\<rparr>\<rparr> else s)"

text \<open>\<^verbatim>\<open>dir.Files[name] = file\<close> and \<^verbatim>\<open>delete(dir.Files, name)\<close>\<close>

definition putFile :: "string \<Rightarrow> FileEntry \<Rightarrow> DirectoryEntry \<Rightarrow> DirectoryEntry" where
  "putFile fileName file d =
     DirectoryEntry (Metadata_d d) (AList.update fileName file (Files d)) (DirectoriesMap d)"

definition removeFile :: "string \<Rightarrow> DirectoryEntry \<Rightarrow> DirectoryEntry" where
  "removeFile fileName d =
     DirectoryEntry (Metadata_d d) (AList.delete fileName (Files d)) (DirectoriesMap d)"

text \<open>
  \<^verbatim>\<open>WriteFile\<close>. \<open>now\<close> is the reading of \<^verbatim>\<open>time.Now().Unix()\<close>. A file that exists is
  changed through its pointer, in the directory where \<^verbatim>\<open>findEntryUnsafe\<close> found it; a new
  one is stored in \<^verbatim>\<open>parentDir\<close>, which is \<^verbatim>\<open>nil\<close> when the second look-up fails too.
\<close>

definition WriteFile :: "Lib \<Rightarrow> int \<Rightarrow> YFS \<Rightarrow> string \<Rightarrow> byte list \<Rightarrow> (unit result \<times> YFS) option" where
  "WriteFile L now s path bytes =
     (case findEntryUnsafe (Root s) path of
        Inl e \<Rightarrow> Some (Inl e, s)
      | Inr (loc, dir, file, isDir) \<Rightarrow>
          if isDir \<and> file = None then Some (Inl PathIsDirectory, s)
          else
            let pathParts = splitSlash (trimSlash path);
                fileName = last pathParts;
                parentPath = joinSlash (butlast pathParts);
                parent =
                  (case findEntryUnsafe (Root s) parentPath of
                     Inr (ploc, _, _, _) \<Rightarrow> Inr (Some ploc, s)
                   | Inl _ \<Rightarrow>
                       (case createDirectoryChain L now parentPath s of
                          (Inl e, s') \<Rightarrow> Inl (e, s')
                        | (Inr _, s') \<Rightarrow>
                            (case findEntryUnsafe (Root s') parentPath of
                               Inr (ploc, _, _, _) \<Rightarrow> Inr (Some ploc, s')
                             | Inl _ \<Rightarrow> Inr (None, s'))));
                existingFirstIndexBlockID =
                  (case file of None \<Rightarrow> 0 | Some f \<Rightarrow> FirstIndexBlockId f)
            in
            case parent of
              Inl (e, s') \<Rightarrow> Some (Inl e, s')
            | Inr (parentDir, s0) \<Rightarrow>
            (case writeFileToBlocks L bytes existingFirstIndexBlockID s0 of
              None \<Rightarrow> None
            | Some (Inl e, s1) \<Rightarrow> Some (Inl e, s1)
            | Some (Inr firstIndexBlockID, s1) \<Rightarrow>
                (case file of
                   None \<Rightarrow>
                     (case parentDir of
                        None \<Rightarrow> Some (Inl Panic, s1)
                      | Some ploc \<Rightarrow>
                          (let newFile =
                                 \<lparr>Metadata = updateMetadataChecksum L (checksumEnabled s1)
                                      \<lparr>Name = fileName, ModTime = now, CreateTime = now,
                                       Permissions = 0, Crc32 = 0\<rparr>,
                                  FirstIndexBlockId = firstIndexBlockID,
                                  Size = int (length bytes),
                                  IndexBlockCount = 0, DataBlockCount = 0\<rparr> in
                           Some (Inr (),
                             saveBitmap (saveRoot L
                               (s1\<lparr>Root := updateDir (putFile fileName newFile) ploc (Root s1)\<rparr>)))))
                 | Some f \<Rightarrow>
                     (let f' = f\<lparr>FirstIndexBlockId := firstIndexBlockID,
                                 Size := int (length bytes),
                                 Metadata := updateMetadataChecksum L (checksumEnabled s1)
                                               ((Metadata f)\<lparr>ModTime := now\<rparr>)\<rparr> in
                      Some (Inr (),
                        saveBitmap (saveRoot L
                          (s1\<lparr>Root := updateDir (putFile fileName f') loc (Root s1)\<rparr>)))))))"

text \<open>The entry a successful \<^verbatim>\<open>WriteFile\<close> leaves under the file name.\<close>

definition writtenEntry ::
  "Lib \<Rightarrow> bool \<Rightarrow> int \<Rightarrow> string \<Rightarrow> FileEntry option \<Rightarrow> uint32 \<Rightarrow> nat \<Rightarrow> FileEntry" where
  "writtenEntry L enabled now fileName file firstIndexBlockID n =
     (case file of
        None \<Rightarrow>
          \<lparr>Metadata = updateMetadataChecksum L enabled
               \<lparr>Name = fileName, ModTime = now, CreateTime = now, Permissions = 0, Crc32 = 0\<rparr>,
           FirstIndexBlockId = firstIndexBlockID, Size = int n,
           IndexBlockCount = 0, DataBlockCount = 0\<rparr>
      | Some f \<Rightarrow>
          f\<lparr>FirstIndexBlockId := firstIndexBlockID, Size := int n,
            Metadata := updateMetadataChecksum L enabled ((Metadata f)\<lparr>ModTime := now\<rparr>)\<rparr>)"

definition ReadFile :: "Lib \<Rightarrow> YFS \<Rightarrow> string \<Rightarrow> byte list result option" where
  "ReadFile L s path =
     (case findEntryUnsafe (Root s) path of
        Inl e \<Rightarrow> Some (Inl e)
      | Inr (loc, dir, file, isDir) \<Rightarrow>
          (case file of
             None \<Rightarrow> Some (Inl FileNotFound)
           | Some f \<Rightarrow>
               if isDir then Some (Inl FileNotFound)
               else if \<not> verifyMetadataChecksum L (checksumEnabled s) (Metadata f)
               then Some (Inl MetadataChecksumFailed)
               else readFileFromBlocks L s (FirstIndexBlockId f) (Size f)))"

definition DeleteFile :: "Lib \<Rightarrow> YFS \<Rightarrow> string \<Rightarrow> (unit result \<times> YFS) option" where
  "DeleteFile L s path =
     (case findEntryUnsafe (Root s) path of
        Inl e \<Rightarrow> Some (Inl e, s)
      | Inr (loc, dir, file, isDir) \<Rightarrow>
          (case file of
             None \<Rightarrow> Some (Inl FileNotFound, s)
           | Some f \<Rightarrow>
               if isDir then Some (Inl FileNotFound, s)
               else
                 case freeFileBlocks L (FirstIndexBlockId f) s of
                   None \<Rightarrow> None
                 | Some (Inl e, s1) \<Rightarrow> Some (Inl e, s1)
                 | Some (Inr _, s1) \<Rightarrow>
                     (let fileName = last (splitSlash (trimSlash path)) in
                      Some (Inr (),
                        saveBitmap (saveRoot L
                          (s1\<lparr>Root := updateDir (removeFile fileName) loc (Root s1)\<rparr>))))))"

definition CopyFile :: "Lib \<Rightarrow> int \<Rightarrow> YFS \<Rightarrow> string \<Rightarrow> string \<Rightarrow> (unit result \<times> YFS) option" where
  "CopyFile L now s srcPath dstPath =
     (case ReadFile L s srcPath of
        None \<Rightarrow> None
      | Some (Inl e) \<Rightarrow> Some (Inl e, s)
      | Some (Inr bytes) \<Rightarrow> WriteFile L now s dstPath bytes)"

definition MoveFile :: "Lib \<Rightarrow> int \<Rightarrow> YFS \<Rightarrow> string \<Rightarrow> string \<Rightarrow> (unit result \<times> YFS) option" where
  "MoveFile L now s srcPath dstPath =
     (case CopyFile L now s srcPath dstPath of
        None \<Rightarrow> None
      | Some (Inl e, s') \<Rightarrow> Some (Inl e, s')
      | Some (Inr _, s') \<Rightarrow> DeleteFile L s' srcPath)"

section \<open>Integrity verifier\<close>

text \<open>
  The loop of \<^verbatim>\<open>verifyFileIndexBlocks\<close> with its \<^verbatim>\<open>visitedBlocks\<close>. An error of
  \<^verbatim>\<open>readIndexBlock\<close> is returned wrapped; the model returns it as it is.
\<close>

function verifyIndexChain :: "Lib \<Rightarrow> YFS \<Rightarrow> uint32 \<Rightarrow> uint32 set \<Rightarrow> unit result" where
  "verifyIndexChain L s currentIndexBlockID visitedBlocks =
     (if currentIndexBlockID = NullBlockID then Inr ()
      else if currentIndexBlockID \<in> visitedBlocks then Inl CircularReference
      else
        case readIndexBlock L s currentIndexBlockID of
          Inl e \<Rightarrow> Inl e
        | Inr indexBlock \<Rightarrow>
            if list_ex (\<lambda>blockID. blockID = NullBlockID \<or> blockID > ucast (totalBlocks (bitmap s)))
                 (BlockIds indexBlock)
            then Inl InvalidDataBlockID
            else if list_ex (\<lambda>extent. StartBlockId extent = NullBlockID
                        \<or> StartBlockId extent + BlockCount extent > ucast (totalBlocks (bitmap s)))
                      (Extents indexBlock)
            then Inl InvalidExtent
            else verifyIndexChain L s (NextIndexBlockId indexBlock)
                   (insert currentIndexBlockID visitedBlocks))"
  by pat_completeness auto
termination
proof (relation "measure (\<lambda>(L, s, cur, visited). card (- visited))")
  show "wf (measure (\<lambda>(L, s, cur, visited). card (- visited)))"
    by simp
next
  fix L :: Lib and s :: YFS and cur :: uint32 and visited :: "uint32 set" and x2 :: IndexBlock
  assume "cur \<notin> visited"
  then have "- insert cur visited \<subset> - visited"
    by auto
  then have "card (- insert cur visited) < card (- visited)"
    by (intro psubset_card_mono) simp_all
  then show "((L, s, NextIndexBlockId x2, insert cur visited), (L, s, cur, visited))
               \<in> measure (\<lambda>(L, s, cur, visited). card (- visited))"
    by simp
qed

definition verifyFileIndexBlocks :: "Lib \<Rightarrow> YFS \<Rightarrow> uint32 \<Rightarrow> unit result" where
  "verifyFileIndexBlocks L s firstIndexBlockID =
     (if firstIndexBlockID = NullBlockID then Inr ()
      else verifyIndexChain L s firstIndexBlockID {})"

text \<open>
  The two loops of \<^verbatim>\<open>verifyDirectoryIntegrity\<close> run over Go maps, in an order the
  language leaves open; the model takes the entries in list order, which decides only
  which of several errors is returned.
\<close>

fun verifyFiles :: "Lib \<Rightarrow> YFS \<Rightarrow> (string \<times> FileEntry) list \<Rightarrow> unit result" where
  "verifyFiles L s [] = Inr ()"
| "verifyFiles L s ((fileName, file) # rest) =
     (if \<not> verifyMetadataChecksum L (checksumEnabled s) (Metadata file)
      then Inl MetadataChecksumFailed
      else
        case verifyFileIndexBlocks L s (FirstIndexBlockId file) of
          Inl e \<Rightarrow> Inl e
        | Inr _ \<Rightarrow> verifyFiles L s rest)"

fun verifyDirectoryIntegrity :: "Lib \<Rightarrow> YFS \<Rightarrow> DirectoryEntry \<Rightarrow> unit result"
  and verifyDirectories :: "Lib \<Rightarrow> YFS \<Rightarrow> (string \<times> DirectoryEntry) list \<Rightarrow> unit result" where
  "verifyDirectoryIntegrity L s (DirectoryEntry m fs dm) =
     (if \<not> verifyMetadataChecksum L (checksumEnabled s) m then Inl MetadataChecksumFailed
      else
        case verifyFiles L s fs of
          Inl e \<Rightarrow> Inl e
        | Inr _ \<Rightarrow>
            (case dm of
               None \<Rightarrow> Inr ()
             | Some ds \<Rightarrow> verifyDirectories L s ds))"
| "verifyDirectories L s [] = Inr ()"
| "verifyDirectories L s ((dirName, subDir) # rest) =
     (case verifyDirectoryIntegrity L s subDir of
        Inl e \<Rightarrow> Inl e
      | Inr _ \<Rightarrow> verifyDirectories L s rest)"

definition VerifyIntegrity :: "Lib \<Rightarrow> YFS \<Rightarrow> unit result" where
  "VerifyIntegrity L s =
     (if \<not> verifyMetadataChecksum L (checksumEnabled s) (Metadata_d (Root s))
      then Inl MetadataChecksumFailed
      else verifyDirectoryIntegrity L s (Root s))"

text \<open>
  The two range tests of \<^verbatim>\<open>verifyFileIndexBlocks\<close> on one index block, passed: every
  data block id is not null and not above \<^verbatim>\<open>uint32(yfs.bitmap.totalBlocks)\<close>, and every
  extent has a start that is not null and \<^verbatim>\<open>StartBlockId+BlockCount\<close>, a 32-bit sum, not
  above it.
\<close>

definition blocksInRange :: "YFS \<Rightarrow> IndexBlock \<Rightarrow> bool" where
  "blocksInRange s indexBlock =
     (list_all (\<lambda>blockID. blockID \<noteq> NullBlockID \<and> blockID \<le> ucast (totalBlocks (bitmap s)))
        (BlockIds indexBlock)
      \<and> list_all (\<lambda>extent. StartBlockId extent \<noteq> NullBlockID
            \<and> StartBlockId extent + BlockCount extent \<le> ucast (totalBlocks (bitmap s)))
          (Extents indexBlock))"

text \<open>
  The file entries of a tree, and its metadata records: those of the directory, of its
  files, and of everything below.
\<close>

fun allFiles :: "DirectoryEntry \<Rightarrow> FileEntry list"
  and allFilesIn :: "(string \<times> DirectoryEntry) list \<Rightarrow> FileEntry list" where
  "allFiles (DirectoryEntry m fs dm) =
     map snd fs @ (case dm of None \<Rightarrow> [] | Some ds \<Rightarrow> allFilesIn ds)"
| "allFilesIn [] = []"
| "allFilesIn ((dirName, subDir) # rest) = allFiles subDir @ allFilesIn rest"

fun allMetadata :: "DirectoryEntry \<Rightarrow> FileMetadata list"
  and allMetadataIn :: "(string \<times> DirectoryEntry) list \<Rightarrow> FileMetadata list" where
  "allMetadata (DirectoryEntry m fs dm) =
     m # map (\<lambda>(fileName, file). Metadata file) fs
       @ (case dm of None \<Rightarrow> [] | Some ds \<Rightarrow> allMetadataIn ds)"
| "allMetadataIn [] = []"
| "allMetadataIn ((dirName, subDir) # rest) = allMetadata subDir @ allMetadataIn rest"

section \<open>A new volume, and a library to run the model with\<close>

text \<open>The state \<^verbatim>\<open>createFileSystem\<close> leaves: 4096-byte blocks, 8192 blocks of capacity.\<close>

definition DefaultBlockSize :: uint32 where
  "DefaultBlockSize = 4096"

definition createFileSystem :: "Lib \<Rightarrow> int \<Rightarrow> YFS" where
  "createFileSystem L now =
     saveBitmap (saveRoot L
       \<lparr>blockSize = DefaultBlockSize,
        Root = DirectoryEntry
                 \<lparr>Name = ''/'', ModTime = now, CreateTime = now, Permissions = 0, Crc32 = 0\<rparr>
                 [] (Some []),
        bitmap = \<lparr>data_bm = replicate 1024 0, totalBlocks = 8192, searchPos = 0, dirty = True\<rparr>,
        blocksFile = PutUint32 DefaultBlockSize,
        checksumEnabled = True\<rparr>)"

text \<open>
  No directory of the tree is filed under the empty name: \<^verbatim>\<open>createDirectoryChain\<close>
  skips empty parts, so the engine never makes one.
\<close>

fun namedDirectory :: "DirectoryEntry \<Rightarrow> bool"
  and namedDirectories :: "(string \<times> DirectoryEntry) list \<Rightarrow> bool" where
  "namedDirectory (DirectoryEntry m fs dm) =
     (case dm of None \<Rightarrow> True | Some ds \<Rightarrow> namedDirectories ds)"
| "namedDirectories [] = True"
| "namedDirectories ((dirName, subDir) # rest) =
     (dirName \<noteq> [] \<and> namedDirectory subDir \<and> namedDirectories rest)"

text \<open>
  An instance of the library parameters, to run the model on concrete volumes: an
  encoding of index blocks that can be read back (each id behind a 1 byte, a 0 byte to
  close a list, fixed-width integers), and two sums that depend on the fields the
  engine's sums are taken over.
\<close>

fun putIds :: "uint32 list \<Rightarrow> byte list" where
  "putIds [] = [0]"
| "putIds (w # ws) = 1 # PutUint32 w @ putIds ws"

function getIds :: "byte list \<Rightarrow> (uint32 list \<times> byte list) option" where
  "getIds [] = None"
| "getIds (t # bs) =
     (if t = 0 then Some ([], bs)
      else if length bs < 4 then None
      else
        case getIds (drop 4 bs) of
          None \<Rightarrow> None
        | Some (ws, rest) \<Rightarrow> Some (Uint32 (take 4 bs) # ws, rest))"
  by pat_completeness auto
termination
  by (relation "measure length") auto

fun putExtents :: "Extent list \<Rightarrow> uint32 list" where
  "putExtents [] = []"
| "putExtents (e # es) = StartBlockId e # BlockCount e # putExtents es"

fun getExtents :: "uint32 list \<Rightarrow> Extent list option" where
  "getExtents [] = Some []"
| "getExtents [a] = None"
| "getExtents (a # b # ws) =
     (case getExtents ws of
        None \<Rightarrow> None
      | Some es \<Rightarrow> Some (\<lparr>StartBlockId = a, BlockCount = b\<rparr> # es))"

definition sampleMarshal :: "IndexBlock \<Rightarrow> byte list" where
  "sampleMarshal ib =
     putIds (BlockIds ib) @ putIds (putExtents (Extents ib))
       @ PutUint32 (NextIndexBlockId ib) @ PutUint32 (DataSize ib) @ PutUint32 (Crc32_ib ib)"

definition sampleUnmarshal :: "byte list \<Rightarrow> IndexBlock option" where
  "sampleUnmarshal bs =
     (case getIds bs of
        None \<Rightarrow> None
      | Some (ids, r1) \<Rightarrow>
          (case getIds r1 of
             None \<Rightarrow> None
           | Some (ws, r2) \<Rightarrow>
               (case getExtents ws of
                  None \<Rightarrow> None
                | Some es \<Rightarrow>
                    if length r2 \<noteq> 12 then None
                    else Some \<lparr>BlockIds = ids, Extents = es,
                               NextIndexBlockId = Uint32 (take 4 r2),
                               DataSize = Uint32 (take 4 (drop 4 r2)),
                               Crc32_ib = Uint32 (take 4 (drop 8 r2))\<rparr>)))"

definition sampleLib :: Lib where
  "sampleLib =
     \<lparr>marshalIndexBlock = sampleMarshal,
      unmarshalIndexBlock = sampleUnmarshal,
      crcIndexBlock = (\<lambda>ids es nxt. of_nat (length ids) + 3 * of_nat (length es) + nxt + 1),
      crcMetadata = (\<lambda>n m c p. of_nat (length n) + of_int m + of_int c + p + 1)\<rparr>"

text \<open>Small volumes for running the model: 32-byte blocks, one bitmap byte.\<close>

definition tinyVolume :: YFS where
  "tinyVolume =
     \<lparr>blockSize = 32,
      Root = DirectoryEntry
               \<lparr>Name = ''/'', ModTime = 0, CreateTime = 0, Permissions = 0, Crc32 = 0\<rparr>
               [] (Some []),
      bitmap = \<lparr>data_bm = [0], totalBlocks = 8, searchPos = 0, dirty = False\<rparr>,
      blocksFile = PutUint32 32,
      checksumEnabled = True\<rparr>"

definition emptyFile :: "string \<Rightarrow> FileEntry" where
  "emptyFile fileName =
     \<lparr>Metadata = updateMetadataChecksum sampleLib True
                   \<lparr>Name = fileName, ModTime = 0, CreateTime = 0, Permissions = 0, Crc32 = 0\<rparr>,
      FirstIndexBlockId = 0, Size = 0, IndexBlockCount = 0, DataBlockCount = 0\<rparr>"

text \<open>
  Two bitmaps: one byte with blocks 3, 5 and 7 free and no two free blocks adjacent, and
  the bitmap of a new volume once all of its 8192 blocks are in use.
\<close>

definition scatteredBitmap :: BlockBitmap where
  "scatteredBitmap = \<lparr>data_bm = [171], totalBlocks = 8, searchPos = 0, dirty = False\<rparr>"

definition fullBitmap :: BlockBitmap where
  "fullBitmap = \<lparr>data_bm = replicate 1024 255, totalBlocks = 8192, searchPos = 0, dirty = False\<rparr>"

text \<open>
  The small volume after \<^verbatim>\<open>WriteFile("/a", [1, 2, 3])\<close>, and the same volume with every
  block of its bitmap in use.
\<close>

definition storedVolume :: YFS where
  "storedVolume =
     (case WriteFile sampleLib 5 tinyVolume ''/a'' [1, 2, 3] of
        Some (r, s) \<Rightarrow> s
      | None \<Rightarrow> tinyVolume)"

definition fullVolume :: YFS where
  "fullVolume = storedVolume\<lparr>bitmap := (bitmap storedVolume)\<lparr>data_bm := [255]\<rparr>\<rparr>"

text \<open>
  The stored volume closed and opened again, as \<^verbatim>\<open>loadFileSystem\<close> and \<^verbatim>\<open>loadBitmap\<close>
  read it: the root holds the file \<^verbatim>\<open>a\<close> and no subdirectory, so \<^verbatim>\<open>proto.Unmarshal\<close> leaves
  its \<^verbatim>\<open>Directories\<close> map \<^verbatim>\<open>nil\<close>; the scan of the bitmap starts at 0.
\<close>

definition reopenedVolume :: YFS where
  "reopenedVolume =
     storedVolume
       \<lparr>Root := DirectoryEntry (Metadata_d (Root storedVolume)) (Files (Root storedVolume)) None,
        bitmap := (bitmap storedVolume)\<lparr>searchPos := 0\<rparr>\<rparr>"

text \<open>
  The stored volume with the index block of \<^verbatim>\<open>/a\<close> written again, its checksum with it:
  once naming data block 9 where the bitmap has 8 blocks, once with its next pointer on
  itself.
\<close>

definition strayVolume :: YFS where
  "strayVolume =
     snd (writeIndexBlock sampleLib storedVolume 2
            \<lparr>BlockIds = [9], Extents = [], NextIndexBlockId = 0, DataSize = 32, Crc32_ib = 0\<rparr>)"

definition cyclicVolume :: YFS where
  "cyclicVolume =
     snd (writeIndexBlock sampleLib storedVolume 2
            \<lparr>BlockIds = [1], Extents = [], NextIndexBlockId = 2, DataSize = 32, Crc32_ib = 0\<rparr>)"

section \<open>Properties of paths and places\<close>

lemma Directories_simps [simp]:
  "Directories (DirectoryEntry m fs None) = []"
  "Directories (DirectoryEntry m fs (Some ds)) = ds"
  "Directories (DirectoryEntry m fs (DirectoriesMap d)) = Directories d"
  by (simp_all add: Directories_def)

lemma splitSlash_nonempty: "splitSlash s \<noteq> []"
  by (induction s) auto


lemma splitSlash_snoc_slash: "slash c \<Longrightarrow> splitSlash (s @ [c]) = splitSlash s @ [[]]"
  by (induction s) (auto simp: splitSlash_nonempty)

lemma splitSlash_snoc_other:
  "\<not> slash c \<Longrightarrow> splitSlash (s @ [c]) = butlast (splitSlash s) @ [last (splitSlash s) @ [c]]"
proof (induction s)
  case Nil
  then show ?case by simp
next
  case (Cons a s)
  obtain w ws where sp: "splitSlash s = w # ws"
    using splitSlash_nonempty by (cases "splitSlash s") auto
  show ?case
  proof (cases ws)
    case Nil
    with Cons sp show ?thesis by (auto simp: splitSlash_nonempty)
  next
    case (Cons w' ws')
    with Cons.IH Cons.prems sp show ?thesis by (auto simp: splitSlash_nonempty)
  qed
qed


lemma nonEmptyParts_dropWhile: "nonEmptyParts (splitSlash (dropWhile slash s)) = nonEmptyParts (splitSlash s)"
  by (induction s) (auto simp: nonEmptyParts_def)

lemma nonEmptyParts_dropWhile_rev:
  "nonEmptyParts (splitSlash (rev (dropWhile slash (rev s)))) = nonEmptyParts (splitSlash s)"
proof (induction s rule: rev_induct)
  case Nil
  then show ?case by simp
next
  case (snoc c s)
  then show ?case
    by (cases "slash c") (auto simp: splitSlash_snoc_slash nonEmptyParts_def)
qed

lemma nonEmptyParts_trimSlash: "nonEmptyParts (splitSlash (trimSlash s)) = nonEmptyParts (splitSlash s)"
  by (simp add: trimSlash_def nonEmptyParts_dropWhile_rev nonEmptyParts_dropWhile)

lemma last_splitSlash_empty: "(last (splitSlash s) = []) = (s = [] \<or> slash (last s))"
proof (induction s rule: rev_induct)
  case Nil
  then show ?case by simp
next
  case (snoc c s)
  then show ?case
    by (cases "slash c") (auto simp: splitSlash_snoc_slash splitSlash_snoc_other)
qed

lemma last_trimSlash: "trimSlash s \<noteq> [] \<Longrightarrow> \<not> slash (last (trimSlash s))"
proof -
  assume ne: "trimSlash s \<noteq> []"
  let ?t = "dropWhile slash (rev (dropWhile slash s))"
  from ne have "?t \<noteq> []" by (simp add: trimSlash_def)
  then have "\<not> slash (hd ?t)" by (rule hd_dropWhile)
  moreover have "last (trimSlash s) = hd ?t"
    using \<open>?t \<noteq> []\<close> by (simp add: trimSlash_def last_rev)
  ultimately show ?thesis by simp
qed

lemma last_parts_nonempty: "trimSlash s \<noteq> [] \<Longrightarrow> last (splitSlash (trimSlash s)) \<noteq> []"
  using last_trimSlash [of s] by (simp add: last_splitSlash_empty)

lemma namedDirectories_lookup:
  "namedDirectories ds \<Longrightarrow> map_of ds n = Some d \<Longrightarrow> n \<noteq> [] \<and> namedDirectory d"
  by (induction ds) (auto split: if_splits)

lemma namedDirectory_dirAt:
  "namedDirectory d \<Longrightarrow> dirAt d loc = Some d' \<Longrightarrow> [] \<notin> set loc \<and> namedDirectory d'"
proof (induction loc arbitrary: d)
  case Nil
  then show ?case by simp
next
  case (Cons n ns)
  from Cons.prems obtain sub where sub: "map_of (Directories d) n = Some sub" "dirAt sub ns = Some d'"
    by (auto split: option.splits)
  have "namedDirectories (Directories d)"
    using Cons.prems(1) by (cases d) (auto split: option.splits)
  with sub(1) have "n \<noteq> []" "namedDirectory sub"
    using namedDirectories_lookup by blast+
  with Cons.IH [OF _ sub(2)] show ?case by simp
qed

lemma createDirectoryParts_nonEmptyParts:
  "createDirectoryParts L e now ps d = createDirectoryParts L e now (nonEmptyParts ps) d"
  by (induction ps arbitrary: d) (auto simp: nonEmptyParts_def split: option.splits sum.splits)

lemma dirAt_createDirectoryParts:
  "dirAt d loc = Some dir \<Longrightarrow> [] \<notin> set loc \<Longrightarrow>
   createDirectoryParts L e now ps dir = Inr new \<Longrightarrow>
   \<exists>r. createDirectoryParts L e now (loc @ ps) d = Inr r \<and> dirAt r loc = Some new"
proof (induction loc arbitrary: d)
  case Nil
  then show ?case by simp
next
  case (Cons n ns)
  from Cons.prems obtain sub where sub: "map_of (Directories d) n = Some sub" "dirAt sub ns = Some dir"
    by (auto split: option.splits)
  from Cons.prems have "n \<noteq> []" "[] \<notin> set ns" by auto
  with Cons.IH [OF sub(2) _ Cons.prems(3)] sub(1) show ?case
    by (auto simp: update_conv')
qed

lemma createDirectoryParts_panic:
  "dirAt d loc = Some dir \<Longrightarrow> [] \<notin> set loc \<Longrightarrow>
   createDirectoryParts L e now ps dir = Inl x \<Longrightarrow>
   createDirectoryParts L e now (loc @ ps) d = Inl x"
proof (induction loc arbitrary: d)
  case Nil
  then show ?case by simp
next
  case (Cons n ns)
  from Cons.prems obtain sub where sub: "map_of (Directories d) n = Some sub" "dirAt sub ns = Some dir"
    by (auto split: option.splits)
  from Cons.prems have "n \<noteq> []" "[] \<notin> set ns" by auto
  with Cons.IH [OF sub(2) _ Cons.prems(3)] sub(1) show ?case
    by simp
qed

lemma dirAt_new_metadata:
  "dirAt r loc = Some d \<Longrightarrow>
   \<exists>d'. dirAt (DirectoryEntry m (Files r) (DirectoriesMap r)) loc = Some d'
        \<and> Files d' = Files d \<and> Directories d' = Directories d"
  by (cases loc) auto

lemma findEntryUnsafe_file:
  assumes "findEntryUnsafe root path = Inr (loc, dir, Some file, isDir)"
  shows "trimSlash path \<noteq> [] \<and> loc = butlast (splitSlash (trimSlash path))
         \<and> dirAt root loc = Some dir \<and> \<not> isDir
         \<and> map_of (Directories dir) (last (splitSlash (trimSlash path))) = None
         \<and> map_of (Files dir) (last (splitSlash (trimSlash path))) = Some file"
  using assms
  by (auto simp: findEntryUnsafe_def Let_def split: if_splits option.splits)

lemma findEntryUnsafe_root:
  "trimSlash path = [] \<Longrightarrow> findEntryUnsafe root path = Inr ([], root, None, True)"
  by (simp add: findEntryUnsafe_def)

section \<open>Directories\<close>

text \<open>
  \<^verbatim>\<open>CreateDirectory\<close> on a path whose last name is a file of its parent:
  \<^verbatim>\<open>findEntryUnsafe\<close> reports the file with \<^verbatim>\<open>isDir\<close> false, so the already-exists
  check does not fire, and \<^verbatim>\<open>createDirectoryChain\<close> goes on to file a new directory
  under that name in the parent's \<^verbatim>\<open>Directories\<close> map. What happens then depends on that
  map alone.
\<close>

lemma CreateDirectory_file_name:
  assumes named: "namedDirectory (Root s)"
    and found: "findEntryUnsafe (Root s) path = Inr (loc, dir, Some file, False)"
  shows "path \<noteq> []"
    and "nonEmptyParts (splitSlash path) = loc @ [last (splitSlash (trimSlash path))]"
    and "last (splitSlash (trimSlash path)) \<noteq> []"
    and "[] \<notin> set loc"
proof -
  let ?nm = "last (splitSlash (trimSlash path))"
  let ?parts = "splitSlash (trimSlash path)"
  from findEntryUnsafe_file [OF found]
  have tp: "trimSlash path \<noteq> []" and loc: "loc = butlast ?parts"
    and at: "dirAt (Root s) loc = Some dir"
    by auto
  from tp show "path \<noteq> []" by (auto simp: trimSlash_def)
  show nm: "?nm \<noteq> []" using tp by (rule last_parts_nonempty)
  show locne: "[] \<notin> set loc" using namedDirectory_dirAt [OF named at] by simp
  have parts: "?parts = loc @ [?nm]"
    using loc splitSlash_nonempty [of "trimSlash path"] by simp
  have "nonEmptyParts (splitSlash path) = nonEmptyParts ?parts"
    by (simp add: nonEmptyParts_trimSlash)
  also have "\<dots> = loc @ [?nm]"
    using locne nm by (subst parts) (auto simp: nonEmptyParts_def filter_id_conv)
  finally show "nonEmptyParts (splitSlash path) = loc @ [?nm]" .
qed

text \<open>
  When the parent's map is allocated the call succeeds, and afterwards the parent holds
  the file, unchanged, and a directory under the same name.
\<close>

lemma CreateDirectory_beside_file:
  assumes named: "namedDirectory (Root s)"
    and found: "findEntryUnsafe (Root s) path = Inr (loc, dir, Some file, False)"
    and allocated: "DirectoriesMap dir = Some ds"
  shows "\<exists>s' dir'. CreateDirectory L now s path = (Inr (), s')
           \<and> dirAt (Root s') loc = Some dir'
           \<and> map_of (Files dir') (last (splitSlash (trimSlash path))) = Some file
           \<and> map_of (Directories dir') (last (splitSlash (trimSlash path))) \<noteq> None"
proof -
  let ?nm = "last (splitSlash (trimSlash path))"
  note N = CreateDirectory_file_name [OF named found]
  from findEntryUnsafe_file [OF found]
  have at: "dirAt (Root s) loc = Some dir"
    and nodir: "map_of (Directories dir) ?nm = None"
    and isfile: "map_of (Files dir) ?nm = Some file"
    by auto
  let ?new = "DirectoryEntry (Metadata_d dir) (Files dir)
                (Some (AList.update ?nm (newDirectory L (checksumEnabled s) now ?nm) ds))"
  have new: "createDirectoryParts L (checksumEnabled s) now [?nm] dir = Inr ?new"
    using N(3) nodir allocated by simp
  from dirAt_createDirectoryParts [OF at N(4) new] obtain r where
    r: "createDirectoryParts L (checksumEnabled s) now (loc @ [?nm]) (Root s) = Inr r"
      "dirAt r loc = Some ?new"
    by blast
  have parts: "createDirectoryParts L (checksumEnabled s) now (splitSlash path) (Root s) = Inr r"
    by (subst createDirectoryParts_nonEmptyParts) (simp add: N(2) r(1))
  have newF: "Files ?new = Files dir"
    and newD: "map_of (Directories ?new) ?nm \<noteq> None"
    by (simp_all add: update_conv')
  have cd: "CreateDirectory L now s path = (Inr (), saveRoot L (s\<lparr>Root := r\<rparr>))"
    using N(1) by (simp add: CreateDirectory_def found createDirectoryChain_def parts)
  show ?thesis
  proof (cases "checksumEnabled s")
    case False
    then have "Root (saveRoot L (s\<lparr>Root := r\<rparr>)) = r"
      by (simp add: saveRoot_def)
    with cd r(2) newF newD isfile show ?thesis by auto
  next
    case True
    then obtain m where "Root (saveRoot L (s\<lparr>Root := r\<rparr>))
        = DirectoryEntry m (Files r) (DirectoriesMap r)"
      by (simp add: saveRoot_def)
    moreover from dirAt_new_metadata [OF r(2), of m] obtain d' where
      "dirAt (DirectoryEntry m (Files r) (DirectoriesMap r)) loc = Some d'"
      "Files d' = Files ?new" "Directories d' = Directories ?new"
      by blast
    ultimately show ?thesis using cd newF newD isfile by auto
  qed
qed

text \<open>When the parent's map is \<^verbatim>\<open>nil\<close> the assignment panics, wherever the parent is.\<close>

lemma CreateDirectory_nil_map:
  assumes named: "namedDirectory (Root s)"
    and found: "findEntryUnsafe (Root s) path = Inr (loc, dir, Some file, False)"
    and nil: "DirectoriesMap dir = None"
  shows "CreateDirectory L now s path = (Inl Panic, s)"
proof -
  let ?nm = "last (splitSlash (trimSlash path))"
  note N = CreateDirectory_file_name [OF named found]
  from findEntryUnsafe_file [OF found]
  have at: "dirAt (Root s) loc = Some dir"
    and nodir: "map_of (Directories dir) ?nm = None"
    by auto
  have new: "createDirectoryParts L (checksumEnabled s) now [?nm] dir = Inl Panic"
    using N(3) nodir nil by simp
  have "createDirectoryParts L (checksumEnabled s) now (loc @ [?nm]) (Root s) = Inl Panic"
    using at N(4) new by (rule createDirectoryParts_panic)
  then have "createDirectoryParts L (checksumEnabled s) now (splitSlash path) (Root s) = Inl Panic"
    by (subst createDirectoryParts_nonEmptyParts) (simp add: N(2))
  then show ?thesis
    using N(1) by (simp add: CreateDirectory_def found createDirectoryChain_def)
qed

text \<open>
  C8. \<^verbatim>\<open>DeleteDirectory\<close> on a path that names a directory holding a file or a
  subdirectory returns the not-empty error, and on a root path (\<^verbatim>\<open>""\<close>, \<^verbatim>\<open>"/"\<close>, any
  run of slashes) it returns an error too: not-empty when the root holds something,
  cannot-delete-root when it is empty. Both returns leave the engine state, and so the
  namespace, as it was.
\<close>

theorem DeleteDirectory_refused:
  "(findEntryUnsafe (Root s) path = Inr (loc, dir, file, True)
      \<and> (Files dir \<noteq> [] \<or> Directories dir \<noteq> [])
     \<longrightarrow> DeleteDirectory s path = Some (Inl DirectoryNotEmpty, s))
   \<and> (trimSlash path = []
     \<longrightarrow> DeleteDirectory s path =
           Some (Inl (if Files (Root s) \<noteq> [] \<or> Directories (Root s) \<noteq> []
                      then DirectoryNotEmpty else CannotDeleteRoot), s))"
  by (auto simp: DeleteDirectory_def findEntryUnsafe_root)

theorem DeleteDirectory_refused_witness:
  "DeleteDirectory
     (tinyVolume\<lparr>Root := DirectoryEntry (Metadata_d (Root tinyVolume)) []
                         (Some [(''d'', putFile ''a'' (emptyFile ''a'') (Root tinyVolume))])\<rparr>) ''/d''
     = Some (Inl DirectoryNotEmpty,
         tinyVolume\<lparr>Root := DirectoryEntry (Metadata_d (Root tinyVolume)) []
                         (Some [(''d'', putFile ''a'' (emptyFile ''a'') (Root tinyVolume))])\<rparr>)
   \<and> DeleteDirectory tinyVolume ''/'' = Some (Inl CannotDeleteRoot, tinyVolume)"
proof -
  let ?s = "tinyVolume\<lparr>Root := DirectoryEntry (Metadata_d (Root tinyVolume)) []
                         (Some [(''d'', putFile ''a'' (emptyFile ''a'') (Root tinyVolume))])\<rparr>"
  have found: "findEntryUnsafe (Root ?s) ''/d''
                 = Inr ([''d''], putFile ''a'' (emptyFile ''a'') (Root tinyVolume), None, True)"
    by (simp add: tinyVolume_def putFile_def findEntryUnsafe_def trimSlash_def slash_def Let_def)
  have full: "Files (putFile ''a'' (emptyFile ''a'') (Root tinyVolume)) \<noteq> []"
    by (simp add: tinyVolume_def putFile_def)
  have root: "trimSlash ''/'' = []" "Files (Root tinyVolume) = []" "Directories (Root tinyVolume) = []"
    by (simp_all add: trimSlash_def slash_def tinyVolume_def)
  show ?thesis
    using DeleteDirectory_refused [of ?s "''/d''" "[''d'']" _ None] found full
      DeleteDirectory_refused [of tinyVolume "''/''"] root
    by simp
qed

section \<open>Allocation\<close>

lemma and_bit_mask: "((w::byte) AND push_bit k 1 = 0) = (\<not> bit w k)"
  by (simp add: push_bit_of_1 and_exp_eq_0_iff_not_bit)

lemma isBlockFree_iff:
  "isBlockFree bm pos =
     (unat pos div 8 < length (data_bm bm) \<and> \<not> bit (data_bm bm ! (unat pos div 8)) (unat pos mod 8))"
  by (auto simp: isBlockFree_def Let_def push_bit_of_1 and_exp_eq_0_iff_not_bit unat_div unat_mod)

lemma expandBitmap_id: "byteIndex < length (data_bm bm) \<Longrightarrow> expandBitmap byteIndex bm = bm"
  by simp

lemma markBlockUsed_in_range:
  assumes "unat pos div 8 < length (data_bm bm)"
  shows "markBlockUsed bm pos =
           bm\<lparr>data_bm := (data_bm bm)[unat pos div 8 :=
                  (data_bm bm ! (unat pos div 8)) OR push_bit (unat pos mod 8) 1]\<rparr>"
  using assms by (simp add: markBlockUsed_def Let_def unat_div unat_mod)

lemma pos_eq_iff: "((p::uint64) = q) = (unat p div 8 = unat q div 8 \<and> unat p mod 8 = unat q mod 8)"
proof
  assume "unat p div 8 = unat q div 8 \<and> unat p mod 8 = unat q mod 8"
  then have "unat p = unat q"
    by (metis div_mult_mod_eq)
  then show "p = q" by (simp add: word_unat_eq_iff)
qed simp

lemma isBlockFree_markBlockUsed:
  assumes "unat pos div 8 < length (data_bm bm)"
  shows "isBlockFree (markBlockUsed bm pos) q = (isBlockFree bm q \<and> q \<noteq> pos)"
proof -
  have k: "unat pos mod 8 < 8" by simp
  show ?thesis
    using assms k
    by (auto simp: isBlockFree_iff markBlockUsed_in_range nth_list_update bit_simps pos_eq_iff)
qed

lemma markBlockUsed_frame:
  assumes "unat pos div 8 < length (data_bm bm)"
  shows "totalBlocks (markBlockUsed bm pos) = totalBlocks bm"
    and "length (data_bm (markBlockUsed bm pos)) = length (data_bm bm)"
    and "searchPos (markBlockUsed bm pos) = searchPos bm"
  using assms by (simp_all add: markBlockUsed_in_range)

lemma scanPositions_Some:
  "scanPositions ok bm i = Some pos \<Longrightarrow> ok pos \<and> pos < totalBlocks bm"
proof (induction ok bm i rule: scanPositions.induct)
  case (1 ok bm i)
  show ?case
  proof (cases "i < unat (totalBlocks bm)")
    case False
    with "1.prems" show ?thesis by simp
  next
    case True
    then have nz: "0 < totalBlocks bm"
      by (simp add: word_less_nat_alt)
    let ?p = "(searchPos bm + of_nat i) mod totalBlocks bm"
    show ?thesis
    proof (cases "ok ?p")
      case True
      with "1.prems" \<open>i < unat (totalBlocks bm)\<close> have "pos = ?p"
        by (simp add: Let_def)
      with True nz show ?thesis
        by (simp add: word_mod_less_divisor)
    next
      case False
      with "1.prems" \<open>i < unat (totalBlocks bm)\<close>
      have "scanPositions ok bm (Suc i) = Some pos"
        by (simp add: Let_def)
      with "1.IH" [OF True refl False] show ?thesis .
    qed
  qed
qed

lemma scanPositions_None: "(\<And>pos. \<not> ok pos) \<Longrightarrow> scanPositions ok bm i = None"
  by (induction ok bm i rule: scanPositions.induct) (simp add: Let_def)


lemma unat_id_of_pos:
  assumes "unat (x::uint64) + 1 < 2 ^ 32"
  shows "unat (ucast (x + 1) :: uint32) = unat x + 1"
proof -
  have "unat (x + 1) = unat x + 1"
    using assms by (simp add: unat_word_ariths)
  then show ?thesis
    using assms by (simp add: unsigned_ucast_eq take_bit_nat_eq_self)
qed

lemma canAllocate_iff:
  "canAllocate bm count pos =
     (\<forall>j < unat count. pos + of_nat j < totalBlocks bm \<and> isBlockFree bm (pos + of_nat j))"
  by (auto simp: canAllocate_def list_all_iff not_le)

lemma foldl_markBlockUsed_frame:
  "(\<And>j. j \<in> set js \<Longrightarrow> unat (pos + of_nat j) div 8 < length (data_bm bm)) \<Longrightarrow>
   totalBlocks (foldl (\<lambda>b j. markBlockUsed b (pos + of_nat j)) bm js) = totalBlocks bm
   \<and> length (data_bm (foldl (\<lambda>b j. markBlockUsed b (pos + of_nat j)) bm js)) = length (data_bm bm)"
proof (induction js arbitrary: bm)
  case Nil
  then show ?case by simp
next
  case (Cons j js)
  have r: "unat (pos + of_nat j) div 8 < length (data_bm bm)"
    using Cons.prems by simp
  have "\<And>i. i \<in> set js \<Longrightarrow>
          unat (pos + of_nat i) div 8 < length (data_bm (markBlockUsed bm (pos + of_nat j)))"
    using Cons.prems by (simp add: markBlockUsed_frame [OF r])
  from Cons.IH [OF this] show ?case
    by (simp add: markBlockUsed_frame [OF r])
qed

lemma allocateRun_ids:
  assumes can: "canAllocate bm count pos"
    and small: "unat (totalBlocks bm) < 2 ^ 32"
    and run: "allocateRun bm count pos = (ids, bm')"
  shows "length ids = unat count \<and> distinct ids
         \<and> (\<forall>blockID \<in> set ids. 1 \<le> unat blockID \<and> unat blockID \<le> unat (totalBlocks bm'))
         \<and> totalBlocks bm' = totalBlocks bm"
proof -
  let ?n = "unat count"
  let ?f = "\<lambda>j. ucast (pos + of_nat j + 1) :: uint32"
  from can have free: "\<And>j. j < ?n \<Longrightarrow> pos + of_nat j < totalBlocks bm \<and> isBlockFree bm (pos + of_nat j)"
    by (simp add: canAllocate_iff)
  have below: "\<And>j. j < ?n \<Longrightarrow> unat (pos + of_nat j) + 1 < 2 ^ 32"
  proof -
    fix j assume "j < ?n"
    then have "unat (pos + of_nat j) < unat (totalBlocks bm)"
      using free by (simp add: word_less_nat_alt)
    with small show "unat (pos + of_nat j) + 1 < 2 ^ 32" by simp
  qed
  have val: "\<And>j. j < ?n \<Longrightarrow> unat (?f j) = unat (pos + of_nat j) + 1"
    using below by (simp add: unat_id_of_pos)
  have ids: "ids = map ?f [0..<?n]"
    using run by (auto simp: allocateRun_def Let_def)
  have inj: "inj_on ?f (set [0..<?n])"
  proof (rule inj_onI)
    fix j k assume jk: "j \<in> set [0..<?n]" "k \<in> set [0..<?n]" and eq: "?f j = ?f k"
    then have j: "j < ?n" and k: "k < ?n" by simp_all
    from eq have "unat (?f j) = unat (?f k)" by simp
    then have "unat (pos + of_nat j) = unat (pos + of_nat k)"
      using val [OF j] val [OF k] by simp
    then have "pos + of_nat j = pos + of_nat k"
      by (simp add: word_unat_eq_iff)
    then have w: "(of_nat j :: uint64) = of_nat k" by simp
    have "?n < 2 ^ 32"
      using unsigned_less [of count, where ?'a = nat] by simp
    then have "?n < 2 ^ 64" by simp
    with j k have "j < 2 ^ 64" "k < 2 ^ 64" by simp_all
    with w show "j = k"
      by (simp add: word_of_nat_eq_iff take_bit_nat_eq_self)
  qed
  have tot: "totalBlocks bm' = totalBlocks bm"
  proof -
    have "\<And>j. j \<in> set [0..<?n] \<Longrightarrow> unat (pos + of_nat j) div 8 < length (data_bm bm)"
      using free by (simp add: isBlockFree_iff)
    from foldl_markBlockUsed_frame [of "[0..<?n]" pos bm, OF this] run
    show ?thesis by (auto simp: allocateRun_def Let_def)
  qed
  have range: "\<forall>blockID \<in> set ids. 1 \<le> unat blockID \<and> unat blockID \<le> unat (totalBlocks bm')"
  proof
    fix blockID assume "blockID \<in> set ids"
    then obtain j where j: "j < ?n" and b: "blockID = ?f j"
      using ids by auto
    have "unat (pos + of_nat j) < unat (totalBlocks bm)"
      using free [OF j] by (simp add: word_less_nat_alt)
    then show "1 \<le> unat blockID \<and> unat blockID \<le> unat (totalBlocks bm')"
      using val [OF j] b tot by simp
  qed
  show ?thesis
    using ids inj range tot by (simp add: distinct_map)
qed


lemma isBlockFree_searchPos [simp]: "isBlockFree (bm\<lparr>searchPos := p\<rparr>) q = isBlockFree bm q"
  by (simp add: isBlockFree_iff)

lemma isBlockFree_dirty [simp]: "isBlockFree (bm\<lparr>dirty := b\<rparr>) q = isBlockFree bm q"
  by (simp add: isBlockFree_iff)

lemma pos_of_new_id:
  assumes "unat (pos::uint64) + 1 < 2 ^ 32"
  shows "(ucast ((ucast (pos + 1) :: uint32) - 1) :: uint64) = pos"
proof -
  let ?w = "ucast (pos + 1) :: uint32"
  have w: "unat ?w = unat pos + 1"
    using assms by (rule unat_id_of_pos)
  then have "?w \<noteq> 0" by (metis Suc_eq_plus1 nat.simps(3) unat_0)
  then have "unat (?w - 1) = unat ?w - 1"
    by (rule unat_minus_one)
  with w have "unat (?w - 1) = unat pos" by simp
  then have "unat (ucast (?w - 1) :: uint64) = unat pos"
    using assms by (simp add: unsigned_ucast_eq take_bit_nat_eq_self)
  then show ?thesis by (simp add: word_unat_eq_iff)
qed

lemma allocateEach_ids:
  assumes "allocateEach k bm acc = (ids, bm')"
    and "unat (totalBlocks bm) < 2 ^ 32"
    and "distinct acc"
    and "\<forall>blockID \<in> set acc. 1 \<le> unat blockID \<and> unat blockID \<le> unat (totalBlocks bm)
           \<and> \<not> isBlockFree bm (ucast (blockID - 1))"
  shows "distinct ids
         \<and> (\<forall>blockID \<in> set ids. 1 \<le> unat blockID \<and> unat blockID \<le> unat (totalBlocks bm')
               \<and> \<not> isBlockFree bm' (ucast (blockID - 1)))
         \<and> totalBlocks bm' = totalBlocks bm"
  using assms
proof (induction k arbitrary: bm acc)
  case 0
  then show ?case by simp
next
  case (Suc k)
  show ?case
  proof (cases "scanPositions (isBlockFree bm) bm 0")
    case None
    with Suc.prems(1) have "allocateEach k bm acc = (ids, bm')" by simp
    from Suc.IH [OF this Suc.prems(2-4)] show ?thesis .
  next
    case (Some pos)
    let ?bm1 = "(markBlockUsed bm pos)\<lparr>searchPos := pos + 1\<rparr>"
    let ?new = "ucast (pos + 1) :: uint32"
    from scanPositions_Some [OF Some] have free: "isBlockFree bm pos" and lt: "pos < totalBlocks bm"
      by simp_all
    from free have inr: "unat pos div 8 < length (data_bm bm)"
      by (simp add: isBlockFree_iff)
    from lt have ltn: "unat pos < unat (totalBlocks bm)"
      by (simp add: word_less_nat_alt)
    with Suc.prems(2) have b: "unat pos + 1 < 2 ^ 32" by simp
    then have new: "unat ?new = unat pos + 1"
      by (rule unat_id_of_pos)
    have newpos: "(ucast (?new - 1) :: uint64) = pos"
      using b by (rule pos_of_new_id)
    have tot: "totalBlocks ?bm1 = totalBlocks bm"
      by (simp add: markBlockUsed_frame [OF inr])
    have fr: "\<And>q. isBlockFree (markBlockUsed bm pos) q = (isBlockFree bm q \<and> q \<noteq> pos)"
      by (simp add: isBlockFree_markBlockUsed [OF inr])
    have notin: "?new \<notin> set acc"
    proof
      assume "?new \<in> set acc"
      with Suc.prems(4) have "\<not> isBlockFree bm (ucast (?new - 1))" by blast
      with newpos free show False by simp
    qed
    have step: "allocateEach k ?bm1 (acc @ [?new]) = (ids, bm')"
      using Suc.prems(1) Some by simp
    have d: "distinct (acc @ [?new])"
      using Suc.prems(3) notin by simp
    have inv: "\<forall>blockID \<in> set (acc @ [?new]). 1 \<le> unat blockID
                  \<and> unat blockID \<le> unat (totalBlocks ?bm1)
                  \<and> \<not> isBlockFree ?bm1 (ucast (blockID - 1))"
      using Suc.prems(4) new newpos ltn tot by (auto simp: fr)
    have small: "unat (totalBlocks ?bm1) < 2 ^ 32"
      using Suc.prems(2) tot by simp
    from Suc.IH [OF step small d inv] tot show ?thesis by auto
  qed
qed

text \<open>
  C7. A successful \<^verbatim>\<open>allocateBlocks(count)\<close> returns exactly \<open>count\<close> block ids,
  pairwise distinct, each at least 1 and at most \<^verbatim>\<open>totalBlocks\<close>, on the contiguous path
  and on the path through \<^verbatim>\<open>allocateBlocksIndividual\<close> alike; the capacity is what it was
  before the call. Block ids are 32-bit, and the capacity of the bitmap is below \<open>2^32\<close>.
\<close>

theorem allocateBlocks_ids:
  assumes ok: "allocateBlocks count bm = (Inr ids, bm')"
    and small: "unat (totalBlocks bm) < 2 ^ 32"
  shows "length ids = unat count \<and> distinct ids
         \<and> (\<forall>blockID \<in> set ids. 1 \<le> unat blockID \<and> unat blockID \<le> unat (totalBlocks bm'))
         \<and> totalBlocks bm' = totalBlocks bm"
proof (cases "count = 0")
  case True
  with ok show ?thesis by (simp add: allocateBlocks_def)
next
  case False
  show ?thesis
  proof (cases "scanPositions (\<lambda>pos. isBlockFree bm pos \<and> canAllocate bm count pos) bm 0")
    case (Some pos)
    with ok False obtain bm1 where run: "allocateRun bm count pos = (ids, bm1)" and "bm' = bm1"
      by (auto simp: allocateBlocks_def split: prod.splits)
    from scanPositions_Some [OF Some] have "canAllocate bm count pos" by simp
    from allocateRun_ids [OF this small run] \<open>bm' = bm1\<close> show ?thesis by auto
  next
    case None
    with ok False have ind: "allocateBlocksIndividual count bm = (Inr ids, bm')"
      by (auto simp: allocateBlocks_def split: if_splits)
    then obtain bm1 where each: "allocateEach (unat count) bm [] = (ids, bm1)"
      and len: "length ids = unat count" and bm': "bm' = bm1\<lparr>dirty := True\<rparr>"
      by (auto simp: allocateBlocksIndividual_def split: prod.splits if_splits)
    from allocateEach_ids [OF each small] len bm' show ?thesis by auto
  qed
qed

theorem allocateBlocks_ids_witness:
  "allocateBlocks 2 scatteredBitmap
     = (Inr [3, 5], \<lparr>data_bm = [191], totalBlocks = 8, searchPos = 5, dirty = True\<rparr>)
   \<and> length [3, 5 :: uint32] = unat (2 :: uint32)
   \<and> distinct [3, 5 :: uint32]
   \<and> unat (5 :: uint32) \<le> unat (totalBlocks scatteredBitmap)"
proof -
  have run: "allocateBlocks 2 scatteredBitmap
     = (Inr [3, 5], \<lparr>data_bm = [191], totalBlocks = 8, searchPos = 5, dirty = True\<rparr>)"
    by code_simp
  have small: "unat (totalBlocks scatteredBitmap) < 2 ^ 32"
    by (simp add: scatteredBitmap_def)
  show ?thesis
    using allocateBlocks_ids [OF run small] run by simp
qed

lemma allocateBlocks_one_none_free:
  assumes "\<And>pos. \<not> isBlockFree bm pos"
  shows "allocateBlocks 1 bm = (Inl NoFreeBlocks, bm)"
proof -
  have "scanPositions (\<lambda>pos. isBlockFree bm pos \<and> canAllocate bm 1 pos) bm 0 = None"
    using assms by (intro scanPositions_None) simp
  then show ?thesis
    by (simp add: allocateBlocks_def)
qed

lemma fullBitmap_none_free: "\<not> isBlockFree fullBitmap pos"
proof -
  have "bit (255 :: byte) (unat pos mod 8)"
  proof -
    have "(255 :: byte) = - 1" by simp
    moreover have "unat pos mod 8 < LENGTH(8)" by simp
    ultimately show ?thesis by (simp only: bit_minus_1_iff possible_bit_word)
  qed
  then show ?thesis
    by (auto simp: isBlockFree_iff fullBitmap_def)
qed

text \<open>
  C3. With every block of the bitmap in use, \<^verbatim>\<open>allocateBlocks(1)\<close> returns the
  no-free-blocks error and the bitmap is what it was: no byte is appended and
  \<^verbatim>\<open>totalBlocks\<close> stays 8192. The growth loop sits in \<^verbatim>\<open>markBlockUsed\<close>, which the
  allocator calls only on positions \<^verbatim>\<open>isBlockFree\<close> accepts, and those lie inside the
  bitmap.
\<close>

theorem allocateBlocks_full_bitmap:
  "allocateBlocks 1 fullBitmap = (Inl NoFreeBlocks, fullBitmap)
   \<and> length (data_bm (snd (allocateBlocks 1 fullBitmap))) = 1024
   \<and> totalBlocks (snd (allocateBlocks 1 fullBitmap)) = 8192"
  using allocateBlocks_one_none_free [of fullBitmap, OF fullBitmap_none_free]
  by (simp add: fullBitmap_def)

section \<open>Blocks written and read back\<close>


lemma length_readAt [simp]: "length (readAt f off n) = n"
  by (simp add: readAt_def)

lemma nth_readAt: "i < n \<Longrightarrow> readAt f off n ! i = byteAt f (off + i)"
  by (auto simp: readAt_def byteAt_def nth_append)

lemma length_writeAt: "length (writeAt f off b) = max (length f) (off + length b)"
  by (auto simp: writeAt_def)

lemma byteAt_writeAt:
  "byteAt (writeAt f off b) i =
     (if off \<le> i \<and> i < off + length b then b ! (i - off) else byteAt f i)"
  by (auto simp: writeAt_def byteAt_def nth_append min_def)

lemma readAt_writeAt_same: "readAt (writeAt f off b) off (length b) = b"
  by (rule nth_equalityI) (simp_all add: nth_readAt byteAt_writeAt)

lemma readAt_writeAt_other:
  "off' + n \<le> off \<or> off + length b \<le> off' \<Longrightarrow> readAt (writeAt f off b) off' n = readAt f off' n"
  by (rule nth_equalityI) (auto simp: nth_readAt byteAt_writeAt)


lemma PutUint32_roundtrip: "Uint32 (PutUint32 v) = v"
  unfolding Uint32_def PutUint32_def
  apply simp
proof (rule bit_word_eqI)
  fix n assume n: "n < LENGTH(32)"
  consider "n < 8" | "8 \<le> n" "n < 16" | "16 \<le> n" "n < 24" | "24 \<le> n" "n < 32"
    using n by fastforce
  then show "bit (ucast (ucast v :: byte) OR push_bit 8 (ucast (ucast (drop_bit 8 v) :: byte)) OR
              push_bit 16 (ucast (ucast (drop_bit 16 v) :: byte)) OR push_bit 24 (ucast (ucast (drop_bit 24 v) :: byte)) :: uint32) n = bit v n"
    by cases (auto simp: bit_simps)
qed

lemma length_PutUint32 [simp]: "length (PutUint32 v) = 4"
  by (simp add: PutUint32_def)

lemma offset_value:
  fixes bs blockID :: uint32
  shows "unat (of_nat HeaderSize + ucast bs * ucast (blockID - 1) :: uint64)
           = 4 + unat bs * unat (blockID - 1)"
proof -
  have a: "unat bs \<le> 2 ^ 32 - 1" and b: "unat (blockID - 1) \<le> 2 ^ 32 - 1"
    using unsigned_less [of bs, where ?'a = nat] unsigned_less [of "blockID - 1", where ?'a = nat]
    by simp_all
  have "unat bs * unat (blockID - 1) \<le> (2 ^ 32 - 1) * (2 ^ 32 - 1)"
    using a b by (rule mult_le_mono)
  then have lt: "4 + unat bs * unat (blockID - 1) < 2 ^ 64" by simp
  have "unat bs < 2 ^ 64" "unat (blockID - 1) < 2 ^ 64"
    using a b by simp_all
  then have u1: "unat (ucast bs :: uint64) = unat bs"
    and u2: "unat (ucast (blockID - 1) :: uint64) = unat (blockID - 1)"
    by (simp_all add: unsigned_ucast_eq take_bit_nat_eq_self)
  have "unat (ucast bs * ucast (blockID - 1) :: uint64) = unat bs * unat (blockID - 1)"
    using lt by (simp only: unat_word_ariths u1 u2) simp
  moreover have "unat (of_nat HeaderSize :: uint64) = 4"
    by (simp add: HeaderSize_def)
  ultimately show ?thesis
    using lt by (simp only: unat_word_ariths) simp
qed


lemma calculateBlockOffset_nonneg:
  assumes "0 \<le> calculateBlockOffset s blockID"
  shows "blockID \<noteq> 0"
    and "nat (calculateBlockOffset s blockID) = 4 + unat (blockSize s) * unat (blockID - 1)"
proof -
  show nz: "blockID \<noteq> 0"
    using assms by (auto simp: calculateBlockOffset_def NullBlockID_def)
  let ?w = "of_nat HeaderSize + ucast (blockSize s) * ucast (blockID - 1) :: uint64"
  from assms nz have "0 \<le> sint ?w"
    by (simp add: calculateBlockOffset_def NullBlockID_def)
  moreover have "sint ?w < 2 ^ 64"
    using sint_less [of ?w] by simp
  ultimately have "take_bit 64 (sint ?w) = sint ?w"
    by (simp add: take_bit_int_eq_self)
  then have "sint ?w = uint ?w"
    using uint_sint [of ?w] by simp
  then have "nat (sint ?w) = unat ?w"
    by simp
  then show "nat (calculateBlockOffset s blockID) = 4 + unat (blockSize s) * unat (blockID - 1)"
    using nz by (simp add: calculateBlockOffset_def NullBlockID_def offset_value)
qed

lemma calculateBlockOffset_cong:
  "blockSize s' = blockSize s \<Longrightarrow> calculateBlockOffset s' blockID = calculateBlockOffset s blockID"
  by (simp add: calculateBlockOffset_def)

lemma writeBlock_Inr:
  assumes "writeBlock s blockID bytes = (Inr u, s')"
  shows "0 \<le> calculateBlockOffset s blockID"
    and "length bytes + 4 \<le> unat (blockSize s)"
    and "s' = s\<lparr>blocksFile := writeAt (blocksFile s) (nat (calculateBlockOffset s blockID))
                    (PutUint32 (of_nat (length bytes)) @ bytes
                       @ replicate (unat (blockSize s) - 4 - length bytes) 0)\<rparr>"
proof -
  from assms show "0 \<le> calculateBlockOffset s blockID"
    by (auto simp: writeBlock_def Let_def split: if_splits)
  from assms have "\<not> uint (blockSize s) - 4 < int (length bytes)"
    by (auto simp: writeBlock_def Let_def split: if_splits)
  moreover have "uint (blockSize s) = int (unat (blockSize s))"
    by simp
  ultimately show "length bytes + 4 \<le> unat (blockSize s)"
    by linarith
  from assms show "s' = s\<lparr>blocksFile := writeAt (blocksFile s) (nat (calculateBlockOffset s blockID))
                    (PutUint32 (of_nat (length bytes)) @ bytes
                       @ replicate (unat (blockSize s) - 4 - length bytes) 0)\<rparr>"
    by (auto simp: writeBlock_def Let_def split: if_splits)
qed

lemma readBlock_writeBlock_same:
  assumes w: "writeBlock s blockID bytes = (Inr u, s')"
  shows "readBlock s' blockID = Inr bytes"
proof -
  let ?bs = "unat (blockSize s)"
  let ?off = "nat (calculateBlockOffset s blockID)"
  let ?block = "PutUint32 (of_nat (length bytes)) @ bytes @ replicate (?bs - 4 - length bytes) 0"
  note W = writeBlock_Inr [OF w]
  have len: "length ?block = ?bs" using W(2) by simp
  have bs: "blockSize s' = blockSize s" and fl: "blocksFile s' = writeAt (blocksFile s) ?off ?block"
    by (simp_all add: W(3))
  have off: "calculateBlockOffset s' blockID = calculateBlockOffset s blockID"
    using bs by (rule calculateBlockOffset_cong)
  have rd: "readAt (blocksFile s') ?off ?bs = ?block"
    using readAt_writeAt_same [of "blocksFile s" ?off ?block] by (simp only: fl len)
  have bsnz: "blockSize s \<noteq> 0" using W(2) by auto
  have inside: "?off < length (blocksFile s')"
    using W(2) by (simp add: fl length_writeAt len)
  have small: "length bytes < 2 ^ 32" "?bs - 4 < 2 ^ 32"
    using W(2) unsigned_less [of "blockSize s", where ?'a = nat] by simp_all
  have "(4 :: uint32) \<le> blockSize s"
    using W(2) by (simp add: word_le_nat_alt)
  then have sub: "unat (blockSize s - 4) = ?bs - 4"
    by (simp add: unat_sub)
  have le: "\<not> (of_nat (length bytes) :: uint32) > of_nat (?bs - 4)"
    using W(2) small by (simp add: word_less_nat_alt unat_of_nat take_bit_nat_eq_self sub)
  show ?thesis
    using W(1) W(2) inside le small
    by (simp add: readBlock_def off bs rd Let_def PutUint32_roundtrip len unat_of_nat)
qed

lemma readBlock_writeBlock_other:
  assumes w: "writeBlock s blockID bytes = (Inr u, s')"
    and other: "blockID \<noteq> d"
    and r: "readBlock s d = Inr x"
  shows "readBlock s' d = Inr x"
proof -
  let ?bs = "unat (blockSize s)"
  let ?off = "nat (calculateBlockOffset s blockID)"
  let ?offd = "nat (calculateBlockOffset s d)"
  let ?block = "PutUint32 (of_nat (length bytes)) @ bytes @ replicate (?bs - 4 - length bytes) 0"
  note W = writeBlock_Inr [OF w]
  have len: "length ?block = ?bs" using W(2) by simp
  have bs: "blockSize s' = blockSize s" and fl: "blocksFile s' = writeAt (blocksFile s) ?off ?block"
    by (simp_all add: W(3))
  from r have dn: "0 \<le> calculateBlockOffset s d"
    by (auto simp: readBlock_def Let_def split: if_splits)
  from r have inside: "\<not> (blockSize s \<noteq> 0 \<and> ?offd \<ge> length (blocksFile s))"
    by (auto simp: readBlock_def Let_def split: if_splits)
  note O = calculateBlockOffset_nonneg [OF W(1)] calculateBlockOffset_nonneg [OF dn]
  have "unat (blockID - 1) \<noteq> unat (d - 1)"
    using other by (simp add: word_unat_eq_iff [symmetric])
  then have "unat (blockID - 1) < unat (d - 1) \<or> unat (d - 1) < unat (blockID - 1)"
    by arith
  then have disj: "?offd + ?bs \<le> ?off \<or> ?off + length ?block \<le> ?offd"
  proof
    assume "unat (blockID - 1) < unat (d - 1)"
    then have "Suc (unat (blockID - 1)) \<le> unat (d - 1)" by simp
    then have "?bs * Suc (unat (blockID - 1)) \<le> ?bs * unat (d - 1)"
      by (rule mult_le_mono2)
    then show ?thesis using O len by simp
  next
    assume "unat (d - 1) < unat (blockID - 1)"
    then have "Suc (unat (d - 1)) \<le> unat (blockID - 1)" by simp
    then have "?bs * Suc (unat (d - 1)) \<le> ?bs * unat (blockID - 1)"
      by (rule mult_le_mono2)
    then show ?thesis using O len by simp
  qed
  have rd: "readAt (blocksFile s') ?offd ?bs = readAt (blocksFile s) ?offd ?bs"
    unfolding fl using disj by (rule readAt_writeAt_other)
  have inside': "\<not> (blockSize s \<noteq> 0 \<and> ?offd \<ge> length (blocksFile s'))"
    using inside by (auto simp: fl length_writeAt)
  have "readBlock s' d = readBlock s d"
    using inside inside'
    by (auto simp: readBlock_def calculateBlockOffset_cong [OF bs] bs rd Let_def)
  with r show ?thesis by simp
qed

section \<open>Index records written and read back\<close>


lemma allocateBlocks_one:
  assumes ok: "allocateBlocks 1 bm = (Inr ids, bm')"
  shows "\<exists>pos. ids = [ucast (pos + 1)] \<and> pos < totalBlocks bm \<and> isBlockFree bm pos
            \<and> (\<forall>q. isBlockFree bm' q = (isBlockFree bm q \<and> q \<noteq> pos))
            \<and> totalBlocks bm' = totalBlocks bm
            \<and> length (data_bm bm') = length (data_bm bm)"
proof (cases "scanPositions (\<lambda>pos. isBlockFree bm pos \<and> canAllocate bm 1 pos) bm 0")
  case None
  with ok show ?thesis by (simp add: allocateBlocks_def)
next
  case (Some pos)
  from scanPositions_Some [OF Some] have free: "isBlockFree bm pos" and lt: "pos < totalBlocks bm"
    by simp_all
  from free have inr: "unat pos div 8 < length (data_bm bm)"
    by (simp add: isBlockFree_iff)
  from ok Some have "ids = [ucast (pos + 1)]"
    and bm': "bm' = (markBlockUsed bm pos)\<lparr>searchPos := pos + 1, dirty := True\<rparr>"
    by (auto simp: allocateBlocks_def allocateRun_def Let_def)
  moreover have "\<forall>q. isBlockFree bm' q = (isBlockFree bm q \<and> q \<noteq> pos)"
    by (simp add: bm' isBlockFree_markBlockUsed [OF inr])
  moreover have "totalBlocks bm' = totalBlocks bm" "length (data_bm bm') = length (data_bm bm)"
    by (simp_all add: bm' markBlockUsed_frame [OF inr])
  ultimately show ?thesis using free lt by blast
qed


lemma markBlockFree_frame:
  "totalBlocks (markBlockFree bm pos) = totalBlocks bm"
  "length (data_bm (markBlockFree bm pos)) = length (data_bm bm)"
  "searchPos (markBlockFree bm pos) = searchPos bm"
  by (simp_all add: markBlockFree_def Let_def)

lemma fold_markBlockFree_frame:
  "totalBlocks (fold (\<lambda>blockID b. if blockID \<noteq> NullBlockID then markBlockFree b (ucast (blockID - 1)) else b) ids bm)
     = totalBlocks bm
   \<and> length (data_bm (fold (\<lambda>blockID b. if blockID \<noteq> NullBlockID then markBlockFree b (ucast (blockID - 1)) else b) ids bm))
     = length (data_bm bm)"
  by (induction ids arbitrary: bm) (simp_all add: markBlockFree_frame)

lemma freeBlocks_frame:
  "totalBlocks (freeBlocks ids bm) = totalBlocks bm"
  "length (data_bm (freeBlocks ids bm)) = length (data_bm bm)"
  by (simp_all add: freeBlocks_def fold_markBlockFree_frame)

lemma fold_freeBlocks_frame:
  "totalBlocks (fold (\<lambda>extent b. freeBlocks (f extent) b) es bm) = totalBlocks bm
   \<and> length (data_bm (fold (\<lambda>extent b. freeBlocks (f extent) b) es bm)) = length (data_bm bm)"
  by (induction es arbitrary: bm) (simp_all add: freeBlocks_frame)

lemma freeFileBlocks_frame:
  assumes run: "freeFileBlocks L cur s = Some y"
  shows "bitmapOnly s (snd y)"
proof (rule freeFileBlocks.raw_induct [where P = "\<lambda>L cur s y. bitmapOnly s (snd y)", OF _ run])
  fix free :: "Lib \<Rightarrow> uint32 \<Rightarrow> YFS \<Rightarrow> (unit result \<times> YFS) option"
  fix L cur s y
  assume IH: "\<And>L cur s y. free L cur s = Some y \<Longrightarrow> bitmapOnly s (snd y)"
  assume eq: "(if cur = NullBlockID then Some (Inr (), s)
      else case readIndexBlock L s cur of
           Inl e \<Rightarrow> Some (Inl e, s)
           | Inr indexBlock \<Rightarrow>
               free L (NextIndexBlockId indexBlock)
                (s\<lparr>bitmap :=
                     freeBlocks [cur]
                      (fold (\<lambda>extent. freeBlocks (extentBlocks extent))
                        (Extents indexBlock)
                        (freeBlocks (BlockIds indexBlock) (bitmap s)))\<rparr>)) = Some y"
  show "bitmapOnly s (snd y)"
  proof (cases "cur = NullBlockID")
    case True
    with eq show ?thesis by (auto simp: bitmapOnly_def)
  next
    case False
    show ?thesis
    proof (cases "readIndexBlock L s cur")
      case (Inl e)
      with False eq show ?thesis by (auto simp: bitmapOnly_def)
    next
      case (Inr ib)
      let ?s1 = "s\<lparr>bitmap := freeBlocks [cur]
                     (fold (\<lambda>extent. freeBlocks (extentBlocks extent)) (Extents ib)
                        (freeBlocks (BlockIds ib) (bitmap s)))\<rparr>"
      from False Inr eq have "free L (NextIndexBlockId ib) ?s1 = Some y"
        by simp
      from IH [OF this] show ?thesis
        by (simp add: bitmapOnly_def freeBlocks_frame fold_freeBlocks_frame)
    qed
  qed
qed

lemma freeOldChain_frame:
  assumes "freeOldChain L old s = Some s'"
  shows "bitmapOnly s s'"
proof (cases "old = NullBlockID")
  case True
  with assms show ?thesis by (simp add: freeOldChain_def bitmapOnly_def)
next
  case False
  with assms obtain y where "freeFileBlocks L old s = Some y" "s' = snd y"
    by (auto simp: freeOldChain_def)
  with freeFileBlocks_frame [of L old s y] show ?thesis by simp
qed

lemma readBlock_cong:
  "blockSize s' = blockSize s \<Longrightarrow> blocksFile s' = blocksFile s \<Longrightarrow> readBlock s' = readBlock s"
proof (rule ext)
  fix d
  assume a: "blockSize s' = blockSize s" "blocksFile s' = blocksFile s"
  have "calculateBlockOffset s' d = calculateBlockOffset s d"
    using a(1) by (rule calculateBlockOffset_cong)
  then show "readBlock s' d = readBlock s d"
    unfolding readBlock_def a by (simp only:)
qed

lemma readIndexBlock_cong:
  assumes "blockSize s' = blockSize s" "blocksFile s' = blocksFile s"
    "checksumEnabled s' = checksumEnabled s"
  shows "readIndexBlock L s' = readIndexBlock L s"
proof (rule ext)
  fix d
  show "readIndexBlock L s' d = readIndexBlock L s d"
    unfolding readIndexBlock_def readBlock_cong [OF assms(1,2)] assms(3) by (rule refl)
qed

lemma writeBlock_frame:
  assumes "writeBlock s blockID bytes = (r, s')"
  shows "blockSize s' = blockSize s" "checksumEnabled s' = checksumEnabled s"
    "Root s' = Root s" "bitmap s' = bitmap s"
  using assms by (auto simp: writeBlock_def Let_def split: if_splits)

lemma writeIndexBlock_frame:
  assumes "writeIndexBlock L s blockID ib = (r, s')"
  shows "blockSize s' = blockSize s" "checksumEnabled s' = checksumEnabled s"
    "Root s' = Root s" "bitmap s' = bitmap s"
proof -
  obtain b where "writeBlock s blockID b = (r, s')"
    using assms by (auto simp: writeIndexBlock_def Let_def)
  from writeBlock_frame [OF this]
  show "blockSize s' = blockSize s" "checksumEnabled s' = checksumEnabled s"
    "Root s' = Root s" "bitmap s' = bitmap s"
    by simp_all
qed

lemma readIndexBlock_after_writeBlock:
  assumes rt: "\<And>x. unmarshalIndexBlock L (marshalIndexBlock L x) = Some x"
    and wb: "writeBlock s blockID (marshalIndexBlock L x) = (Inr u, s')"
    and crc: "checksumEnabled s \<Longrightarrow> Crc32_ib x = indexChecksum L x"
  shows "readIndexBlock L s' blockID = Inr x"
proof -
  have ce: "checksumEnabled s' = checksumEnabled s"
    using writeBlock_frame(2) [OF wb] .
  have rb: "readBlock s' blockID = Inr (marshalIndexBlock L x)"
    using wb by (rule readBlock_writeBlock_same)
  show ?thesis
    using crc by (simp add: readIndexBlock_def rb rt ce)
qed

lemma readIndexBlock_writeIndexBlock:
  assumes rt: "\<And>x. unmarshalIndexBlock L (marshalIndexBlock L x) = Some x"
    and w: "writeIndexBlock L s blockID ib = (Inr u, s')"
  shows "\<exists>crc. readIndexBlock L s' blockID = Inr (ib\<lparr>Crc32_ib := crc\<rparr>)"
proof (cases "checksumEnabled s")
  case True
  with w have "writeBlock s blockID (marshalIndexBlock L (ib\<lparr>Crc32_ib := indexChecksum L ib\<rparr>)) = (Inr u, s')"
    by (simp add: writeIndexBlock_def)
  from readIndexBlock_after_writeBlock [OF rt this] show ?thesis
    by (auto simp: indexChecksum_def)
next
  case False
  with w have "writeBlock s blockID (marshalIndexBlock L ib) = (Inr u, s')"
    by (simp add: writeIndexBlock_def)
  from readIndexBlock_after_writeBlock [OF rt this] False
  have "readIndexBlock L s' blockID = Inr (ib\<lparr>Crc32_ib := Crc32_ib ib\<rparr>)" by simp
  then show ?thesis by blast
qed

lemma readBlock_writeIndexBlock_other:
  assumes w: "writeIndexBlock L s blockID ib = (Inr u, s')"
    and other: "blockID \<noteq> d"
    and r: "readBlock s d = Inr x"
  shows "readBlock s' d = Inr x"
proof -
  obtain b where "writeBlock s blockID b = (Inr u, s')"
    using w by (auto simp: writeIndexBlock_def Let_def)
  from readBlock_writeBlock_other [OF this other r] show ?thesis .
qed


lemma createIndexBlocks_single:
  assumes rt: "\<And>x. unmarshalIndexBlock L (marshalIndexBlock L x) = Some x"
    and w: "createIndexBlocks L s [d] = (Inr first, s')"
  shows "\<exists>pos ib. first = ucast (pos + 1) \<and> pos < totalBlocks (bitmap s)
           \<and> isBlockFree (bitmap s) pos
           \<and> readIndexBlock L s' first = Inr ib
           \<and> BlockIds ib = [d] \<and> Extents ib = [] \<and> NextIndexBlockId ib = 0
           \<and> blockSize s' = blockSize s \<and> checksumEnabled s' = checksumEnabled s
           \<and> Root s' = Root s \<and> totalBlocks (bitmap s') = totalBlocks (bitmap s)
           \<and> (\<forall>e x. e \<noteq> first \<longrightarrow> readBlock s e = Inr x \<longrightarrow> readBlock s' e = Inr x)"
proof -
  let ?ib0 = "\<lparr>BlockIds = [d], Extents = [], NextIndexBlockId = 0,
               DataSize = of_nat (length [d] * unat (blockSize s)), Crc32_ib = 0\<rparr>"
  obtain r bm where al: "allocateBlocks 1 (bitmap s) = (r, bm)"
    by (cases "allocateBlocks 1 (bitmap s)") auto
  have rec: "createIndexRecords L s [d] [] =
    (case allocateBlocks 1 (bitmap s) of
          (Inl e, bm) \<Rightarrow> (Inl e, s\<lparr>bitmap := freeBlocks [] bm\<rparr>)
        | (Inr [], bm) \<Rightarrow> (Inl Panic, s\<lparr>bitmap := bm\<rparr>)
        | (Inr (indexBlockID # _), bm) \<Rightarrow>
             (case writeIndexBlock L (s\<lparr>bitmap := bm\<rparr>) indexBlockID ?ib0 of
               (Inl e, s') \<Rightarrow>
                 (Inl e, s'\<lparr>bitmap := freeBlocks ([] @ [indexBlockID]) (bitmap s')\<rparr>)
             | (Inr _, s') \<Rightarrow> (Inr ([] @ [indexBlockID]), s')))"
    by (subst createIndexRecords.simps)
       (simp add: MaxBlocksPerIndex_def Let_def split: prod.splits sum.splits list.splits)
  from w have ne: "\<exists>ids s1. createIndexRecords L s [d] [] = (Inr ids, s1)"
    by (auto simp: createIndexBlocks_def simp del: createIndexRecords.simps split: prod.splits sum.splits)
  then obtain ids where r: "r = Inr ids"
    using al by (cases r) (auto simp: rec simp del: createIndexRecords.simps)
  from allocateBlocks_one [OF al [unfolded r]] obtain pos where
    ids: "ids = [ucast (pos + 1)]" and lt: "pos < totalBlocks (bitmap s)"
    and free: "isBlockFree (bitmap s) pos" and tot: "totalBlocks bm = totalBlocks (bitmap s)"
    by blast
  let ?id = "ucast (pos + 1) :: uint32"
  obtain r2 s1 where wi: "writeIndexBlock L (s\<lparr>bitmap := bm\<rparr>) ?id ?ib0 = (r2, s1)"
    by (cases "writeIndexBlock L (s\<lparr>bitmap := bm\<rparr>) ?id ?ib0") auto
  from ne obtain u where r2: "r2 = Inr u"
    using al r ids wi by (cases r2) (auto simp: rec simp del: createIndexRecords.simps)
  have recv: "createIndexRecords L s [d] [] = (Inr [?id], s1)"
    using al r ids wi r2 by (simp add: rec del: createIndexRecords.simps)
  from w have first: "first = ?id" and s': "s' = s1"
    by (simp_all add: createIndexBlocks_def recv del: createIndexRecords.simps)
  note F = writeIndexBlock_frame [OF wi]
  from readIndexBlock_writeIndexBlock [OF rt wi [unfolded r2]]
  obtain crc where rd: "readIndexBlock L s1 ?id = Inr (?ib0\<lparr>Crc32_ib := crc\<rparr>)"
    by blast
  have other: "\<forall>e x. e \<noteq> first \<longrightarrow> readBlock s e = Inr x \<longrightarrow> readBlock s' e = Inr x"
  proof (intro allI impI)
    fix e x assume e: "e \<noteq> first" and x: "readBlock s e = Inr x"
    have "readBlock (s\<lparr>bitmap := bm\<rparr>) = readBlock s"
      by (rule readBlock_cong) simp_all
    with x have "readBlock (s\<lparr>bitmap := bm\<rparr>) e = Inr x" by simp
    from readBlock_writeIndexBlock_other [OF wi [unfolded r2] _ this] e first s'
    show "readBlock s' e = Inr x" by auto
  qed
  show ?thesis
    using first s' lt free rd F tot other by (intro exI [of _ pos] exI [of _ "?ib0\<lparr>Crc32_ib := crc\<rparr>"]) simp
qed

lemma writeDataBlocks_first:
  assumes w: "writeDataBlocks s bytes 0 (d # rest) = (Inr u, s1)"
    and ne: "bytes \<noteq> []"
  shows "length bytes + 4 \<le> unat (blockSize s)"
proof -
  let ?bs = "unat (blockSize s)"
  obtain r s2 where wb: "writeBlock s d (take (min ?bs (length bytes)) bytes) = (r, s2)"
    by (cases "writeBlock s d (take (min ?bs (length bytes)) bytes)") auto
  from w wb obtain u' where "r = Inr u'"
    by (cases r) (auto simp: Let_def)
  from writeBlock_Inr(2) [OF wb [unfolded this]] ne show ?thesis
    by (cases bytes) (auto simp: min_def split: if_splits)
qed

lemma writeDataBlocks_single:
  assumes w: "writeDataBlocks s bytes 0 [d] = (Inr u, s1)"
    and le: "length bytes \<le> unat (blockSize s)"
  shows "\<exists>u'. writeBlock s d bytes = (Inr u', s1)"
proof -
  obtain r s2 where wb: "writeBlock s d bytes = (r, s2)"
    by (cases "writeBlock s d bytes") auto
  with w le show ?thesis
    by (cases r) (auto simp: Let_def min_def)
qed

section \<open>What a successful store leaves\<close>

lemma blocksNeeded_one:
  assumes "bytes \<noteq> []" "length bytes + 4 \<le> bs"
  shows "(length bytes + bs - 1) div bs = (1::nat)"
proof -
  from assms(1) obtain n where n: "length bytes = Suc n" by (cases bytes) auto
  have "length bytes + bs - 1 = bs + n" using n by simp
  moreover have "n < bs" using n assms(2) by simp
  ultimately show ?thesis
    using div_add_self1 [of bs n] by simp
qed

lemma blocksNeeded_le:
  assumes "0 < bs"
  shows "(n + bs - 1) div bs \<le> (n::nat)"
proof (cases n)
  case 0
  then show ?thesis using assms by simp
next
  case (Suc m)
  have "(n + bs - 1) div bs = (m + bs) div bs" using Suc by simp
  also have "\<dots> = m div bs + 1" using assms div_add_self2 [of bs m] by simp
  also have "\<dots> \<le> m + 1" by (simp add: div_le_dividend)
  finally show ?thesis using Suc by simp
qed


lemma writeDataBlocks_frame:
  "writeDataBlocks s bytes i ids = (r, s') \<Longrightarrow>
   blockSize s' = blockSize s \<and> checksumEnabled s' = checksumEnabled s
     \<and> Root s' = Root s \<and> bitmap s' = bitmap s"
proof (induction ids arbitrary: s i)
  case Nil
  then show ?case by simp
next
  case (Cons d ids)
  let ?start = "i * unat (blockSize s)"
  let ?end = "min (?start + unat (blockSize s)) (length bytes)"
  show ?case
  proof (cases "?start > ?end")
    case True
    then have "length bytes < ?start" by simp
    with Cons.prems show ?thesis by (simp add: Let_def min_less_iff_disj)
  next
    case False
    then have nl: "\<not> length bytes < ?start" by simp
    have eq: "writeDataBlocks s bytes i (d # ids) =
        (case writeBlock s d (take (?end - ?start) (drop ?start bytes)) of
           (Inl e, s') \<Rightarrow> (Inl e, s')
         | (Inr _, s') \<Rightarrow> writeDataBlocks s' bytes (Suc i) ids)"
      using nl by (simp add: Let_def min_less_iff_disj)
    obtain r1 s1 where wb: "writeBlock s d (take (?end - ?start) (drop ?start bytes)) = (r1, s1)"
      by (cases "writeBlock s d (take (?end - ?start) (drop ?start bytes))") auto
    note F = writeBlock_frame [OF wb]
    show ?thesis
    proof (cases r1)
      case (Inl e)
      with Cons.prems have "s' = s1" unfolding eq wb by simp
      with F show ?thesis by simp
    next
      case (Inr u)
      with Cons.prems have "writeDataBlocks s1 bytes (Suc i) ids = (r, s')"
        unfolding eq wb by simp
      from Cons.IH [OF this] F show ?thesis by simp
    qed
  qed
qed

lemma bitmapOnly_reads:
  assumes "bitmapOnly s s'"
  shows "readBlock s' = readBlock s" "readIndexBlock L s' = readIndexBlock L s"
  using assms readBlock_cong [of s' s] readIndexBlock_cong [of s' s L]
  by (simp_all add: bitmapOnly_def)

lemma writeFileToBlocks_Inr:
  assumes rt: "\<And>x. unmarshalIndexBlock L (marshalIndexBlock L x) = Some x"
    and small: "unat (totalBlocks (bitmap s)) < 2 ^ 32"
    and w: "writeFileToBlocks L bytes old s = Some (Inr first, s')"
  shows "blockSize s' = blockSize s \<and> checksumEnabled s' = checksumEnabled s
           \<and> Root s' = Root s \<and> totalBlocks (bitmap s') = totalBlocks (bitmap s)"
    and "first = 0 \<or>
           (bytes \<noteq> [] \<and> length bytes + 4 \<le> unat (blockSize s)
            \<and> (\<exists>d ib. readIndexBlock L s' first = Inr ib
                  \<and> BlockIds ib = [d] \<and> Extents ib = [] \<and> NextIndexBlockId ib = 0
                  \<and> readBlock s' d = Inr bytes))"
    and "bytes \<noteq> [] \<longrightarrow> length bytes < 2 ^ 32 \<longrightarrow> first \<noteq> 0"
proof -
  let ?frame = "blockSize s' = blockSize s \<and> checksumEnabled s' = checksumEnabled s
           \<and> Root s' = Root s \<and> totalBlocks (bitmap s') = totalBlocks (bitmap s)"
  let ?shape = "first = 0 \<or>
           (bytes \<noteq> [] \<and> length bytes + 4 \<le> unat (blockSize s)
            \<and> (\<exists>d ib. readIndexBlock L s' first = Inr ib
                  \<and> BlockIds ib = [d] \<and> Extents ib = [] \<and> NextIndexBlockId ib = 0
                  \<and> readBlock s' d = Inr bytes))"
  let ?nz = "bytes \<noteq> [] \<longrightarrow> length bytes < 2 ^ 32 \<longrightarrow> first \<noteq> 0"
  have "?frame \<and> ?shape \<and> ?nz"
  proof (cases "bytes = []")
    case True
    with w obtain t where "freeOldChain L old s = Some t" "first = 0" "s' = t"
      by (auto simp: writeFileToBlocks_def NullBlockID_def)
    with freeOldChain_frame [of L old s t] True show ?thesis
      by (simp add: bitmapOnly_def)
  next
    case False
    let ?bs = "unat (blockSize s)"
    let ?n = "(length bytes + ?bs - 1) div ?bs"
    from w False have bsnz: "blockSize s \<noteq> 0"
      by (auto simp: writeFileToBlocks_def)
    then have bspos: "0 < ?bs" by (simp add: unat_gt_0)
    obtain r bm where al: "allocateBlocks (of_nat ?n) (bitmap s) = (r, bm)"
      by (cases "allocateBlocks (of_nat ?n) (bitmap s)") auto
    from w False bsnz al obtain dataBlocks where r: "r = Inr dataBlocks"
      by (cases r) (auto simp: writeFileToBlocks_def Let_def)
    note A = allocateBlocks_ids [OF al [unfolded r] small]
    obtain r1 s1 where wd: "writeDataBlocks (s\<lparr>bitmap := bm\<rparr>) bytes 0 dataBlocks = (r1, s1)"
      by (cases "writeDataBlocks (s\<lparr>bitmap := bm\<rparr>) bytes 0 dataBlocks") auto
    from w False bsnz al r wd obtain u where r1: "r1 = Inr u"
      by (cases r1) (auto simp: writeFileToBlocks_def Let_def)
    note D = writeDataBlocks_frame [OF wd]
    obtain r2 s2 where ci: "createIndexBlocks L s1 dataBlocks = (r2, s2)"
      by (cases "createIndexBlocks L s1 dataBlocks") auto
    from w False bsnz al r wd r1 ci have r2: "r2 = Inr first"
      and fo: "freeOldChain L old s2 = Some s'"
      by (cases r2; auto simp: writeFileToBlocks_def Let_def)+
    note B = freeOldChain_frame [OF fo]
    note R = bitmapOnly_reads [OF B]
    show ?thesis
    proof (cases dataBlocks)
      case Nil
      with ci r2 have first: "first = 0" and s2: "s2 = s1"
        by (simp_all add: createIndexBlocks_def NullBlockID_def)
      have fr: ?frame
        using B D A s2 by (simp add: bitmapOnly_def)
      have ?nz
      proof (intro impI)
        assume len: "length bytes < 2 ^ 32"
        have "?n \<le> length bytes" using bspos by (rule blocksNeeded_le)
        with len have nlt: "?n < 2 ^ 32" by simp
        have "1 \<le> ?n"
        proof -
          from False obtain m where "length bytes = Suc m" by (cases bytes) auto
          then have "?bs \<le> length bytes + ?bs - 1" by simp
          then have "?bs div ?bs \<le> ?n" by (rule div_le_mono)
          with bspos show ?thesis by simp
        qed
        moreover from A Nil have "unat (of_nat ?n :: uint32) = 0" by simp
        then have "?n = 0" using nlt by (simp add: unat_of_nat)
        ultimately show "first \<noteq> 0" by simp
      qed
      with fr first show ?thesis by simp
    next
      case (Cons d rest)
      have len4: "length bytes + 4 \<le> ?bs"
        using writeDataBlocks_first [OF wd [unfolded r1 Cons] False] by simp
      have n1: "?n = 1" using False len4 by (rule blocksNeeded_one)
      from allocateBlocks_one [OF al [unfolded r n1, simplified]] obtain posd where
        ids: "dataBlocks = [ucast (posd + 1)]" and posd: "posd < totalBlocks (bitmap s)"
        and freeb: "\<forall>q. isBlockFree bm q = (isBlockFree (bitmap s) q \<and> q \<noteq> posd)"
        and totb: "totalBlocks bm = totalBlocks (bitmap s)"
        by blast
      from ids Cons have d: "d = ucast (posd + 1)" and rest: "rest = []" by simp_all
      from writeDataBlocks_single [OF wd [unfolded r1 Cons rest]] len4
      obtain u' where wb: "writeBlock (s\<lparr>bitmap := bm\<rparr>) d bytes = (Inr u', s1)"
        by auto
      have rd1: "readBlock s1 d = Inr bytes"
        using wb by (rule readBlock_writeBlock_same)
      from createIndexBlocks_single [OF rt ci [unfolded r2 Cons rest]] obtain posi ib where
        first: "first = ucast (posi + 1)" and posi: "posi < totalBlocks (bitmap s1)"
        and freei: "isBlockFree (bitmap s1) posi"
        and rib: "readIndexBlock L s2 first = Inr ib"
        and ib: "BlockIds ib = [d]" "Extents ib = []" "NextIndexBlockId ib = 0"
        and fr2: "blockSize s2 = blockSize s1" "checksumEnabled s2 = checksumEnabled s1"
          "Root s2 = Root s1" "totalBlocks (bitmap s2) = totalBlocks (bitmap s1)"
        and other: "\<forall>e x. e \<noteq> first \<longrightarrow> readBlock s1 e = Inr x \<longrightarrow> readBlock s2 e = Inr x"
        by blast
      have bm1: "bitmap s1 = bm" using D by simp
      from freei freeb bm1 have ne: "posi \<noteq> posd" by simp
      have pd: "unat posd + 1 < 2 ^ 32" and pi: "unat posi + 1 < 2 ^ 32"
        using posd posi small totb bm1 by (simp_all add: word_less_nat_alt)
      have ud: "unat d = unat posd + 1" and uf: "unat first = unat posi + 1"
        unfolding d first using pd pi by (simp_all add: unat_id_of_pos)
      from ne have "unat posi \<noteq> unat posd" by (simp add: word_unat_eq_iff)
      with ud uf have fd: "d \<noteq> first" by auto
      from uf have fnz: "first \<noteq> 0" by auto
      from other fd rd1 have rd2: "readBlock s2 d = Inr bytes" by blast
      have fr: ?frame
        using B D fr2 totb bm1 by (simp add: bitmapOnly_def)
      have "readIndexBlock L s' first = Inr ib" "readBlock s' d = Inr bytes"
        using rib rd2 by (simp_all add: R)
      with ib False len4 have ?shape by blast
      with fr fnz show ?thesis by simp
    qed
  qed
  then show ?frame and ?shape and ?nz by blast+
qed

section \<open>Looking a file up after a change\<close>

lemma splitSlash_no_slash: "p \<in> set (splitSlash s) \<Longrightarrow> c \<in> set p \<Longrightarrow> \<not> slash c"
proof (induction s arbitrary: p)
  case Nil
  then show ?case by simp
next
  case (Cons a s)
  obtain w ws where sp: "splitSlash s = w # ws"
    using splitSlash_nonempty by (cases "splitSlash s") auto
  show ?case
  proof (cases "slash a")
    case True
    with Cons.prems Cons.IH show ?thesis by auto
  next
    case False
    with Cons.prems sp have "p = a # w \<or> p \<in> set ws" by auto
    then show ?thesis
    proof
      assume "p = a # w"
      with Cons.prems(2) have "c = a \<or> c \<in> set w" by auto
      then show ?thesis
        using False Cons.IH [of w] sp by auto
    next
      assume "p \<in> set ws"
      then show ?thesis using Cons.IH [of p] Cons.prems(2) sp by auto
    qed
  qed
qed

lemma splitSlash_plain: "\<forall>c \<in> set p. \<not> slash c \<Longrightarrow> splitSlash p = [p]"
  by (induction p) auto

lemma splitSlash_append_slash:
  "\<forall>c \<in> set p. \<not> slash c \<Longrightarrow> splitSlash (p @ CHR ''/'' # r) = p # splitSlash r"
  by (induction p) (auto simp: slash_def)

lemma splitSlash_joinSlash:
  "ps \<noteq> [] \<Longrightarrow> \<forall>p \<in> set ps. \<forall>c \<in> set p. \<not> slash c \<Longrightarrow> splitSlash (joinSlash ps) = ps"
proof (induction ps rule: joinSlash.induct)
  case 1
  then show ?case by simp
next
  case (2 p)
  then show ?case by (simp add: splitSlash_plain)
next
  case (3 p q ps)
  then show ?case by (simp add: splitSlash_append_slash)
qed

lemma joinSlash_ends:
  assumes "ps \<noteq> []" "\<forall>p \<in> set ps. p \<noteq> [] \<and> (\<forall>c \<in> set p. \<not> slash c)"
  shows "joinSlash ps \<noteq> [] \<and> \<not> slash (hd (joinSlash ps)) \<and> \<not> slash (last (joinSlash ps))"
  using assms
proof (induction ps rule: joinSlash.induct)
  case 1
  then show ?case by simp
next
  case (2 p)
  then show ?case by (cases p rule: rev_cases) (auto simp: hd_append)
next
  case (3 p q ps)
  then have "joinSlash (q # ps) \<noteq> []" "\<not> slash (last (joinSlash (q # ps)))" by simp_all
  moreover from 3 have "p \<noteq> []" "\<not> slash (hd p)" by (cases p; simp)+
  ultimately show ?case by (simp add: hd_append)
qed

lemma trimSlash_id: "s \<noteq> [] \<Longrightarrow> \<not> slash (hd s) \<Longrightarrow> \<not> slash (last s) \<Longrightarrow> trimSlash s = s"
proof -
  assume a: "s \<noteq> []" "\<not> slash (hd s)" "\<not> slash (last s)"
  then have "dropWhile slash s = s" by (cases s) auto
  moreover have "dropWhile slash (rev s) = rev s"
    using a by (cases s rule: rev_cases) auto
  ultimately show ?thesis by (simp add: trimSlash_def)
qed

lemma dirAt_append:
  "dirAt root (xs @ ys) = (case dirAt root xs of None \<Rightarrow> None | Some d \<Rightarrow> dirAt d ys)"
  by (induction xs arbitrary: root) (auto split: option.splits)


lemma findEntryUnsafe_notdir:
  assumes "findEntryUnsafe root path = Inr (loc, dir, file, False)"
  shows "trimSlash path \<noteq> []"
    and "loc = butlast (splitSlash (trimSlash path))"
    and "dirAt root loc = Some dir"
    and "map_of (Directories dir) (last (splitSlash (trimSlash path))) = None"
    and "file = map_of (Files dir) (last (splitSlash (trimSlash path)))"
  using assms
  by (auto simp: findEntryUnsafe_def Let_def split: if_splits option.splits)

lemma findEntryUnsafe_isDir:
  "findEntryUnsafe root path = Inr (loc, dir, file, True) \<Longrightarrow> file = None"
  by (auto simp: findEntryUnsafe_def Let_def split: if_splits option.splits)

lemma findEntryUnsafe_file_at:
  assumes "trimSlash path \<noteq> []"
    and "dirAt root (butlast (splitSlash (trimSlash path))) = Some dir"
    and "map_of (Directories dir) (last (splitSlash (trimSlash path))) = None"
  shows "findEntryUnsafe root path =
           Inr (butlast (splitSlash (trimSlash path)), dir,
                map_of (Files dir) (last (splitSlash (trimSlash path))), False)"
  using assms by (auto simp: findEntryUnsafe_def Let_def split: option.splits)

lemma findEntryUnsafe_parent:
  assumes named: "namedDirectory root"
    and found: "findEntryUnsafe root path = Inr (loc, dir, file, False)"
  shows "\<exists>d f. findEntryUnsafe root (joinSlash (butlast (splitSlash (trimSlash path))))
                 = Inr (loc, d, f, True)"
proof -
  note F = findEntryUnsafe_notdir [OF found]
  show ?thesis
  proof (cases "loc = []")
    case True
    then show ?thesis
      using F(2) by (simp add: findEntryUnsafe_def trimSlash_def)
  next
    case False
    have ne: "\<forall>p \<in> set loc. p \<noteq> []"
      using namedDirectory_dirAt [OF named F(3)] by auto
    have ns: "\<forall>p \<in> set loc. \<forall>c \<in> set p. \<not> slash c"
      using F(2) splitSlash_no_slash [of _ "trimSlash path"] by (auto dest: in_set_butlastD)
    let ?jp = "joinSlash loc"
    from joinSlash_ends [OF False] ne ns
    have e: "?jp \<noteq> []" "\<not> slash (hd ?jp)" "\<not> slash (last ?jp)" by auto
    then have tr: "trimSlash ?jp = ?jp" by (rule trimSlash_id)
    have sp: "splitSlash ?jp = loc" using False ns by (rule splitSlash_joinSlash)
    from False have l: "loc = butlast loc @ [last loc]" by simp
    with F(3) dirAt_append [of root "butlast loc" "[last loc]"]
    obtain d0 where d0: "dirAt root (butlast loc) = Some d0"
      and sub: "map_of (Directories d0) (last loc) = Some dir"
      by (cases "dirAt root (butlast loc)") (auto split: option.splits)
    have "findEntryUnsafe root ?jp = Inr (butlast loc @ [last loc], dir, None, True)"
      using e(1) d0 sub by (simp add: findEntryUnsafe_def tr sp Let_def)
    with l F(2) show ?thesis by auto
  qed
qed

lemma dirAt_updateDir:
  "dirAt root loc = Some dir \<Longrightarrow> dirAt (updateDir f loc root) loc = Some (f dir)"
proof (induction loc arbitrary: root)
  case Nil
  then show ?case by simp
next
  case (Cons n ns)
  then obtain sub where "map_of (Directories root) n = Some sub" "dirAt sub ns = Some dir"
    by (auto split: option.splits)
  with Cons.IH [of sub] show ?case by (simp add: update_conv')
qed

lemma Root_saveRoot:
  "\<exists>m. Root (saveRoot L s) = DirectoryEntry m (Files (Root s)) (DirectoriesMap (Root s))"
  by (cases "Root s") (auto simp: saveRoot_def)

lemma saveRoot_frame [simp]:
  "blockSize (saveRoot L s) = blockSize s" "blocksFile (saveRoot L s) = blocksFile s"
  "checksumEnabled (saveRoot L s) = checksumEnabled s" "bitmap (saveRoot L s) = bitmap s"
  by (simp_all add: saveRoot_def)

lemma saveBitmap_frame [simp]:
  "blockSize (saveBitmap s) = blockSize s" "blocksFile (saveBitmap s) = blocksFile s"
  "checksumEnabled (saveBitmap s) = checksumEnabled s" "Root (saveBitmap s) = Root s"
  "data_bm (bitmap (saveBitmap s)) = data_bm (bitmap s)"
  "totalBlocks (bitmap (saveBitmap s)) = totalBlocks (bitmap s)"
  by (simp_all add: saveBitmap_def)

lemma findEntryUnsafe_after_update:
  assumes found: "findEntryUnsafe root path = Inr (loc, dir, file, False)"
    and same: "Directories (f dir) = Directories dir"
  shows "\<exists>dir'. findEntryUnsafe
                   (DirectoryEntry m (Files (updateDir f loc root)) (DirectoriesMap (updateDir f loc root)))
                   path
                 = Inr (loc, dir', map_of (Files (f dir)) (last (splitSlash (trimSlash path))), False)"
proof -
  note F = findEntryUnsafe_notdir [OF found]
  let ?r = "updateDir f loc root"
  have "dirAt ?r loc = Some (f dir)" using F(3) by (rule dirAt_updateDir)
  from dirAt_new_metadata [OF this, of m] obtain d' where
    d': "dirAt (DirectoryEntry m (Files ?r) (DirectoriesMap ?r)) loc = Some d'"
      "Files d' = Files (f dir)" "Directories d' = Directories (f dir)"
    by blast
  from findEntryUnsafe_file_at [of path "DirectoryEntry m (Files ?r) (DirectoriesMap ?r)" d']
    F(1) d' F(2) F(4) same
  show ?thesis by auto
qed

lemma WriteFile_unfold:
  assumes named: "namedDirectory (Root s)"
    and found: "findEntryUnsafe (Root s) path = Inr (loc, dir, file, False)"
  shows "WriteFile L now s path bytes =
     (case writeFileToBlocks L bytes (case file of None \<Rightarrow> 0 | Some f \<Rightarrow> FirstIndexBlockId f) s of
        None \<Rightarrow> None
      | Some (Inl e, s1) \<Rightarrow> Some (Inl e, s1)
      | Some (Inr firstIndexBlockID, s1) \<Rightarrow>
          Some (Inr (),
            saveBitmap (saveRoot L
              (s1\<lparr>Root := updateDir
                  (putFile (last (splitSlash (trimSlash path)))
                     (writtenEntry L (checksumEnabled s1) now (last (splitSlash (trimSlash path)))
                        file firstIndexBlockID (length bytes)))
                  loc (Root s1)\<rparr>))))"
proof -
  from findEntryUnsafe_parent [OF named found] obtain d f where
    par: "findEntryUnsafe (Root s) (joinSlash (butlast (splitSlash (trimSlash path)))) = Inr (loc, d, f, True)"
    by blast
  show ?thesis
    by (cases "file")
       (simp_all add: WriteFile_def found par Let_def writtenEntry_def
          split: option.splits sum.splits prod.splits)
qed

section \<open>Write, then read\<close>

lemma readFileFromBlocks_single:
  assumes ib: "readIndexBlock L s first = Inr ib" "BlockIds ib = [d]" "NextIndexBlockId ib = 0"
    and d: "readBlock s d = Inr bytes"
    and nz: "first \<noteq> 0" "bytes \<noteq> []"
  shows "readFileFromBlocks L s first (int (length bytes)) = Some (Inr bytes)"
proof -
  have pos: "0 < int (length bytes)" using nz(2) by simp
  have inner: "readDataBlocks s [d] (int (length bytes)) [] 0 = Inr (bytes, int (length bytes))"
    using pos d by (simp add: Let_def)
  have last: "readIndexChain L s 0 (int (length bytes)) bytes (int (length bytes)) = Some (Inr bytes)"
    by (subst readIndexChain.simps) (simp add: NullBlockID_def)
  have "readIndexChain L s first (int (length bytes)) [] 0 =
          (case readDataBlocks s [d] (int (length bytes)) [] 0 of
             Inl e \<Rightarrow> Some (Inl e)
           | Inr (r, b) \<Rightarrow> readIndexChain L s (NextIndexBlockId ib) (int (length bytes)) r b)"
    using nz pos
    by (subst readIndexChain.simps) (simp add: NullBlockID_def ib del: readDataBlocks.simps)
  then have "readIndexChain L s first (int (length bytes)) [] 0 = Some (Inr bytes)"
    unfolding inner by (simp add: last ib(3))
  then show ?thesis
    using nz by (simp add: readFileFromBlocks_def NullBlockID_def)
qed

lemma verify_updateMetadataChecksum:
  "verifyMetadataChecksum L enabled (updateMetadataChecksum L enabled m)"
  by (simp add: verifyMetadataChecksum_def updateMetadataChecksum_def)

lemma writtenEntry_fields:
  "FirstIndexBlockId (writtenEntry L enabled now nm file first n) = first"
  "Size (writtenEntry L enabled now nm file first n) = int n"
  "verifyMetadataChecksum L enabled (Metadata (writtenEntry L enabled now nm file first n))"
  "DataBlockCount (writtenEntry L enabled now nm file first n)
     = (case file of None \<Rightarrow> 0 | Some f \<Rightarrow> DataBlockCount f)"
  by (cases "file"; simp add: writtenEntry_def verify_updateMetadataChecksum)+

lemma WriteFile_found:
  assumes "WriteFile L now s path bytes = Some (Inr u, s')"
  shows "\<exists>loc dir file. findEntryUnsafe (Root s) path = Inr (loc, dir, file, False)"
proof (cases "findEntryUnsafe (Root s) path")
  case (Inl e)
  with assms show ?thesis by (simp add: WriteFile_def)
next
  case (Inr t)
  obtain loc dir fl isDir where t: "t = (loc, dir, fl, isDir)" by (cases t) auto
  show ?thesis
  proof (cases isDir)
    case True
    with Inr t findEntryUnsafe_isDir [of "Root s" path loc dir fl] have "fl = None" by simp
    with assms Inr t True show ?thesis by (simp add: WriteFile_def)
  next
    case False
    with Inr t show ?thesis by auto
  qed
qed

lemma getIds_putIds: "getIds (putIds ws @ r) = Some (ws, r)"
  by (induction ws) (auto simp: PutUint32_roundtrip)

lemma getExtents_putExtents: "getExtents (putExtents es) = Some es"
  by (induction es) auto

lemma sampleLib_reads_back:
  "unmarshalIndexBlock sampleLib (marshalIndexBlock sampleLib ib) = Some ib"
  by (simp add: sampleLib_def sampleUnmarshal_def sampleMarshal_def getIds_putIds
      getExtents_putExtents PutUint32_roundtrip)

lemma WriteFile_Inr:
  assumes rt: "\<And>x. unmarshalIndexBlock L (marshalIndexBlock L x) = Some x"
    and named: "namedDirectory (Root s)"
    and small: "unat (totalBlocks (bitmap s)) < 2 ^ 32"
    and w: "WriteFile L now s path bytes = Some (Inr u, s')"
  shows "\<exists>loc dir fl dir' e.
           findEntryUnsafe (Root s) path = Inr (loc, dir, fl, False)
         \<and> findEntryUnsafe (Root s') path = Inr (loc, dir', Some e, False)
         \<and> Size e = int (length bytes)
         \<and> verifyMetadataChecksum L (checksumEnabled s') (Metadata e)
         \<and> DataBlockCount e = (case fl of None \<Rightarrow> 0 | Some f \<Rightarrow> DataBlockCount f)
         \<and> (FirstIndexBlockId e = 0 \<or>
              (bytes \<noteq> [] \<and> length bytes + 4 \<le> unat (blockSize s)
               \<and> (\<exists>d ib. readIndexBlock L s' (FirstIndexBlockId e) = Inr ib
                     \<and> BlockIds ib = [d] \<and> Extents ib = [] \<and> NextIndexBlockId ib = 0
                     \<and> readBlock s' d = Inr bytes)))
         \<and> (bytes \<noteq> [] \<longrightarrow> length bytes < 2 ^ 32 \<longrightarrow> FirstIndexBlockId e \<noteq> 0)
         \<and> blockSize s' = blockSize s \<and> checksumEnabled s' = checksumEnabled s
         \<and> totalBlocks (bitmap s') = totalBlocks (bitmap s)"
proof -
  let ?nm = "last (splitSlash (trimSlash path))"
  from WriteFile_found [OF w] obtain loc dir fl where
    found: "findEntryUnsafe (Root s) path = Inr (loc, dir, fl, False)"
    by blast
  let ?old = "case fl of None \<Rightarrow> 0 | Some f \<Rightarrow> FirstIndexBlockId f"
  from w have c: "(case writeFileToBlocks L bytes ?old s of
        None \<Rightarrow> None
      | Some (Inl e, s1) \<Rightarrow> Some (Inl e, s1)
      | Some (Inr firstIndexBlockID, s1) \<Rightarrow>
          Some (Inr (),
            saveBitmap (saveRoot L
              (s1\<lparr>Root := updateDir
                  (putFile ?nm (writtenEntry L (checksumEnabled s1) now ?nm fl firstIndexBlockID (length bytes)))
                  loc (Root s1)\<rparr>)))) = Some (Inr u, s')"
    by (simp only: WriteFile_unfold [OF named found])
  obtain first s1 where wf: "writeFileToBlocks L bytes ?old s = Some (Inr first, s1)"
    and s': "s' = saveBitmap (saveRoot L
              (s1\<lparr>Root := updateDir
                  (putFile ?nm (writtenEntry L (checksumEnabled s1) now ?nm fl first (length bytes)))
                  loc (Root s1)\<rparr>))"
  proof (cases "writeFileToBlocks L bytes ?old s")
    case None
    with c show ?thesis by simp
  next
    case (Some p)
    obtain r s1 where p: "p = (r, s1)" by (cases p) auto
    show ?thesis
    proof (cases r)
      case (Inl e)
      with c Some p show ?thesis by simp
    next
      case (Inr first)
      with c Some p that [of first s1] show ?thesis by simp
    qed
  qed
  let ?e = "writtenEntry L (checksumEnabled s1) now ?nm fl first (length bytes)"
  note W = writeFileToBlocks_Inr [OF rt small wf]
  have dev: "blockSize s' = blockSize s1" "blocksFile s' = blocksFile s1"
    "checksumEnabled s' = checksumEnabled s1"
    and tot: "totalBlocks (bitmap s') = totalBlocks (bitmap s1)"
    by (simp_all add: s')
  define X where "X = updateDir (putFile ?nm ?e) loc (Root s)"
  have rs: "Root s1 = Root s" using W(1) by simp
  have s'X: "s' = saveBitmap (saveRoot L (s1\<lparr>Root := X\<rparr>))"
    unfolding s' X_def rs by (rule refl)
  have r1: "Root (s1\<lparr>Root := X\<rparr>) = X" by simp
  obtain m where "Root (saveRoot L (s1\<lparr>Root := X\<rparr>)) = DirectoryEntry m (Files X) (DirectoriesMap X)"
    using Root_saveRoot [of L "s1\<lparr>Root := X\<rparr>"] unfolding r1 by blast
  then have root: "Root s' = DirectoryEntry m (Files (updateDir (putFile ?nm ?e) loc (Root s)))
                                   (DirectoriesMap (updateDir (putFile ?nm ?e) loc (Root s)))"
    unfolding s'X by (simp add: X_def)
  from findEntryUnsafe_after_update [OF found, of "putFile ?nm ?e" m]
  obtain dir' where f2: "findEntryUnsafe (Root s') path = Inr (loc, dir', Some ?e, False)"
    by (auto simp: root putFile_def update_conv')
  have rds: "readIndexBlock L s' = readIndexBlock L s1" "readBlock s' = readBlock s1"
    using readIndexBlock_cong [OF dev] readBlock_cong [OF dev(1,2)] by blast+
  have shape: "FirstIndexBlockId ?e = 0 \<or>
              (bytes \<noteq> [] \<and> length bytes + 4 \<le> unat (blockSize s)
               \<and> (\<exists>d ib. readIndexBlock L s' (FirstIndexBlockId ?e) = Inr ib
                     \<and> BlockIds ib = [d] \<and> Extents ib = [] \<and> NextIndexBlockId ib = 0
                     \<and> readBlock s' d = Inr bytes))"
    using W(2) unfolding rds writtenEntry_fields by blast
  have nz: "bytes \<noteq> [] \<longrightarrow> length bytes < 2 ^ 32 \<longrightarrow> FirstIndexBlockId ?e \<noteq> 0"
    using W(3) unfolding writtenEntry_fields by blast
  have v: "verifyMetadataChecksum L (checksumEnabled s') (Metadata ?e)"
    unfolding dev by (rule writtenEntry_fields)
  have fr: "blockSize s' = blockSize s \<and> checksumEnabled s' = checksumEnabled s
         \<and> totalBlocks (bitmap s') = totalBlocks (bitmap s)"
    using W(1) dev tot by simp
  show ?thesis
    using found f2 shape nz v fr writtenEntry_fields(2,4) [of L "checksumEnabled s1" now ?nm fl first "length bytes"]
    by blast
qed

text \<open>
  C1. Write then read. When \<^verbatim>\<open>WriteFile(path, bytes)\<close> returns success, \<^verbatim>\<open>ReadFile(path)\<close>
  on the state it leaves returns exactly \<open>bytes\<close>, whatever the path and the length of the
  payload. The library decodes an index block it encoded, no directory of the tree is
  filed under the empty name, the bitmap's capacity is below \<open>2^32\<close> (block ids are 32-bit)
  and the payload is shorter than \<open>2^32\<close> bytes.
\<close>

theorem WriteFile_ReadFile:
  assumes rt: "\<And>x. unmarshalIndexBlock L (marshalIndexBlock L x) = Some x"
    and named: "namedDirectory (Root s)"
    and small: "unat (totalBlocks (bitmap s)) < 2 ^ 32"
    and len: "length bytes < 2 ^ 32"
    and w: "WriteFile L now s path bytes = Some (Inr u, s')"
  shows "ReadFile L s' path = Some (Inr bytes)"
proof -
  from WriteFile_Inr [OF rt named small w] obtain loc dir' e where
    f2: "findEntryUnsafe (Root s') path = Inr (loc, dir', Some e, False)"
    and sz: "Size e = int (length bytes)"
    and v: "verifyMetadataChecksum L (checksumEnabled s') (Metadata e)"
    and shape: "FirstIndexBlockId e = 0 \<or>
              (bytes \<noteq> [] \<and> length bytes + 4 \<le> unat (blockSize s)
               \<and> (\<exists>d ib. readIndexBlock L s' (FirstIndexBlockId e) = Inr ib
                     \<and> BlockIds ib = [d] \<and> Extents ib = [] \<and> NextIndexBlockId ib = 0
                     \<and> readBlock s' d = Inr bytes))"
    and nz: "bytes \<noteq> [] \<longrightarrow> length bytes < 2 ^ 32 \<longrightarrow> FirstIndexBlockId e \<noteq> 0"
    by blast
  have rd: "ReadFile L s' path = readFileFromBlocks L s' (FirstIndexBlockId e) (int (length bytes))"
    by (simp add: ReadFile_def f2 v sz)
  show ?thesis
  proof (cases "bytes = []")
    case True
    then show ?thesis by (simp add: rd readFileFromBlocks_def)
  next
    case False
    with nz len have fnz: "FirstIndexBlockId e \<noteq> 0" by simp
    with shape obtain d ib where ib: "readIndexBlock L s' (FirstIndexBlockId e) = Inr ib"
      "BlockIds ib = [d]" "NextIndexBlockId ib = 0" and rb: "readBlock s' d = Inr bytes"
      by auto
    from readFileFromBlocks_single [OF ib rb fnz False] rd show ?thesis by simp
  qed
qed

theorem WriteFile_ReadFile_witness:
  "\<exists>s'. WriteFile sampleLib 5 tinyVolume ''/a'' [1, 2, 3] = Some (Inr (), s')
        \<and> ReadFile sampleLib s' ''/a'' = Some (Inr [1, 2, 3])"
proof -
  have "case WriteFile sampleLib 5 tinyVolume ''/a'' [1, 2, 3] of
          Some (Inr u, s') \<Rightarrow> True | _ \<Rightarrow> False"
    by code_simp
  then obtain s' where w: "WriteFile sampleLib 5 tinyVolume ''/a'' [1, 2, 3] = Some (Inr (), s')"
    by (auto split: option.splits sum.splits prod.splits)
  have named: "namedDirectory (Root tinyVolume)"
    and small: "unat (totalBlocks (bitmap tinyVolume)) < 2 ^ 32"
    by (simp_all add: tinyVolume_def)
  have len: "length [1, 2, 3 :: byte] < 2 ^ 32" by simp
  from WriteFile_ReadFile [OF sampleLib_reads_back named small len w] w
  show ?thesis by blast
qed

section \<open>Moving a file onto itself\<close>

lemma freeFileBlocks_null: "freeFileBlocks L 0 s = Some (Inr (), s)"
  by (subst freeFileBlocks.simps) (simp add: NullBlockID_def)

lemma freeFileBlocks_last:
  assumes "readIndexBlock L s first = Inr ib" "NextIndexBlockId ib = 0" "first \<noteq> 0"
  shows "\<exists>s'. freeFileBlocks L first s = Some (Inr (), s')"
  using assms
  by (subst freeFileBlocks.simps) (simp add: NullBlockID_def freeFileBlocks_null)

lemma DeleteFile_run:
  assumes found: "findEntryUnsafe (Root s) path = Inr (loc, dir, Some f, False)"
    and free: "freeFileBlocks L (FirstIndexBlockId f) s = Some (Inr u, s1)"
  shows "\<exists>s2 dir2. DeleteFile L s path = Some (Inr (), s2)
           \<and> findEntryUnsafe (Root s2) path = Inr (loc, dir2, None, False)"
proof -
  let ?nm = "last (splitSlash (trimSlash path))"
  define X where "X = updateDir (removeFile ?nm) loc (Root s)"
  have rs: "Root s1 = Root s"
    using freeFileBlocks_frame [OF free] by (simp add: bitmapOnly_def)
  let ?s2 = "saveBitmap (saveRoot L (s1\<lparr>Root := X\<rparr>))"
  have del: "DeleteFile L s path = Some (Inr (), ?s2)"
    by (simp add: DeleteFile_def found free rs X_def)
  have r1: "Root (s1\<lparr>Root := X\<rparr>) = X" by simp
  obtain m where rm: "Root (saveRoot L (s1\<lparr>Root := X\<rparr>)) = DirectoryEntry m (Files X) (DirectoriesMap X)"
    using Root_saveRoot [of L "s1\<lparr>Root := X\<rparr>"] unfolding r1 by blast
  from findEntryUnsafe_after_update [OF found, of "removeFile ?nm" m]
  obtain dir2 where "findEntryUnsafe (DirectoryEntry m (Files X) (DirectoriesMap X)) path
                       = Inr (loc, dir2, None, False)"
    unfolding X_def by (auto simp: removeFile_def delete_conv')
  then have "findEntryUnsafe (Root ?s2) path = Inr (loc, dir2, None, False)"
    by (simp add: rm)
  with del show ?thesis by blast
qed

lemma storedVolume_value: "storedVolume =
   \<lparr>blockSize = 32,
      Root =
        DirectoryEntry
         \<lparr>Name = ''/'', ModTime = 0, CreateTime = 0, Permissions = 0, Crc32 = 2\<rparr>
         [(''a'',
           \<lparr>Metadata = \<lparr>Name = ''a'', ModTime = 5, CreateTime = 5, Permissions = 0, Crc32 = 12\<rparr>,
              FirstIndexBlockId = 2, Size = 3, IndexBlockCount = 0, DataBlockCount = 0\<rparr>)]
         (Some []),
      bitmap = \<lparr>data_bm = [3], totalBlocks = 8, searchPos = 2, dirty = False\<rparr>,
      blocksFile =
        [32, 0, 0, 0, 3, 0, 0, 0, 1, 2, 3, 0, 0, 0, 0, 0, 0, 0, 0, 0, 0, 0,
         0, 0, 0, 0, 0, 0, 0, 0, 0, 0, 0, 0, 0, 0, 19, 0, 0, 0, 1, 1, 0, 0,
         0, 0, 0, 0, 0, 0, 0, 32, 0, 0, 0, 2, 0, 0, 0, 0, 0, 0, 0, 0, 0, 0,
         0, 0],
      checksumEnabled = True\<rparr>"
  by code_simp

lemma fullVolume_value: "fullVolume =
   \<lparr>blockSize = 32,
      Root =
        DirectoryEntry
         \<lparr>Name = ''/'', ModTime = 0, CreateTime = 0, Permissions = 0, Crc32 = 2\<rparr>
         [(''a'',
           \<lparr>Metadata = \<lparr>Name = ''a'', ModTime = 5, CreateTime = 5, Permissions = 0, Crc32 = 12\<rparr>,
              FirstIndexBlockId = 2, Size = 3, IndexBlockCount = 0, DataBlockCount = 0\<rparr>)]
         (Some []),
      bitmap = \<lparr>data_bm = [255], totalBlocks = 8, searchPos = 2, dirty = False\<rparr>,
      blocksFile =
        [32, 0, 0, 0, 3, 0, 0, 0, 1, 2, 3, 0, 0, 0, 0, 0, 0, 0, 0, 0, 0, 0,
         0, 0, 0, 0, 0, 0, 0, 0, 0, 0, 0, 0, 0, 0, 19, 0, 0, 0, 1, 1, 0, 0,
         0, 0, 0, 0, 0, 0, 0, 32, 0, 0, 0, 2, 0, 0, 0, 0, 0, 0, 0, 0, 0, 0,
         0, 0],
      checksumEnabled = True\<rparr>"
  unfolding fullVolume_def storedVolume_value by simp

text \<open>
  C9. \<^verbatim>\<open>MoveFile(path, path)\<close>. The move is \<^verbatim>\<open>CopyFile\<close> then \<^verbatim>\<open>DeleteFile\<close>. Whenever
  the copy of the file onto itself returns success, the delete that follows succeeds too,
  the move returns success, and the path no longer names a file: the delete removes the
  one entry the copy has just rewritten. The standing conditions of C1 on library, tree and
  capacity apply.
\<close>

theorem MoveFile_same_path:
  assumes rt: "\<And>x. unmarshalIndexBlock L (marshalIndexBlock L x) = Some x"
    and named: "namedDirectory (Root s)"
    and small: "unat (totalBlocks (bitmap s)) < 2 ^ 32"
    and copy: "CopyFile L now s path path = Some (Inr u, s1)"
  shows "\<exists>s2 loc dir. MoveFile L now s path path = Some (Inr (), s2)
           \<and> findEntryUnsafe (Root s2) path = Inr (loc, dir, None, False)"
proof -
  from copy obtain bytes where rd: "ReadFile L s path = Some (Inr bytes)"
    and w: "WriteFile L now s path bytes = Some (Inr u, s1)"
    by (auto simp: CopyFile_def split: option.splits sum.splits)
  from WriteFile_Inr [OF rt named small w] obtain loc dir' e where
    f2: "findEntryUnsafe (Root s1) path = Inr (loc, dir', Some e, False)"
    and shape: "FirstIndexBlockId e = 0 \<or>
              (bytes \<noteq> [] \<and> length bytes + 4 \<le> unat (blockSize s)
               \<and> (\<exists>d ib. readIndexBlock L s1 (FirstIndexBlockId e) = Inr ib
                     \<and> BlockIds ib = [d] \<and> Extents ib = [] \<and> NextIndexBlockId ib = 0
                     \<and> readBlock s1 d = Inr bytes))"
    by blast
  have "\<exists>t. freeFileBlocks L (FirstIndexBlockId e) s1 = Some (Inr (), t)"
  proof (cases "FirstIndexBlockId e = 0")
    case True
    then show ?thesis by (simp add: freeFileBlocks_null)
  next
    case False
    with shape obtain ib where "readIndexBlock L s1 (FirstIndexBlockId e) = Inr ib"
      "NextIndexBlockId ib = 0" by auto
    from freeFileBlocks_last [OF this False] show ?thesis .
  qed
  then obtain t where "freeFileBlocks L (FirstIndexBlockId e) s1 = Some (Inr (), t)" by blast
  from DeleteFile_run [OF f2 this] obtain s2 dir2 where
    "DeleteFile L s1 path = Some (Inr (), s2)"
    "findEntryUnsafe (Root s2) path = Inr (loc, dir2, None, False)"
    by blast
  then show ?thesis
    by (auto simp: MoveFile_def copy)
qed

theorem MoveFile_same_path_witness:
  "\<exists>s2 loc dir. MoveFile sampleLib 6 storedVolume ''/a'' ''/a'' = Some (Inr (), s2)
       \<and> findEntryUnsafe (Root s2) ''/a'' = Inr (loc, dir, None, False)"
proof -
  have "case CopyFile sampleLib 6 storedVolume ''/a'' ''/a'' of
          Some (Inr u, s1) \<Rightarrow> True | _ \<Rightarrow> False"
    unfolding storedVolume_value by code_simp
  then obtain s1 where c: "CopyFile sampleLib 6 storedVolume ''/a'' ''/a'' = Some (Inr (), s1)"
    by (auto split: option.splits sum.splits prod.splits)
  have named: "namedDirectory (Root storedVolume)"
    and small: "unat (totalBlocks (bitmap storedVolume)) < 2 ^ 32"
    unfolding storedVolume_value by simp_all
  from MoveFile_same_path [OF sampleLib_reads_back named small c] show ?thesis .
qed

text \<open>
  With no free block left the copy fails, the move returns its error, and the file stays
  where it was.
\<close>

theorem MoveFile_same_path_full_volume:
  "ReadFile sampleLib fullVolume ''/a'' = Some (Inr [1, 2, 3])
   \<and> MoveFile sampleLib 6 fullVolume ''/a'' ''/a'' = Some (Inl NoFreeBlocks, fullVolume)"
  unfolding fullVolume_value by code_simp

section \<open>Block boundaries and block counts\<close>

lemma WriteFile_longer_than_block:
  assumes rt: "\<And>x. unmarshalIndexBlock L (marshalIndexBlock L x) = Some x"
    and named: "namedDirectory (Root s)"
    and small: "unat (totalBlocks (bitmap s)) < 2 ^ 32"
    and long: "unat (blockSize s) < length bytes + 4"
    and len: "length bytes < 2 ^ 32"
    and ne: "bytes \<noteq> []"
  shows "WriteFile L now s path bytes \<noteq> Some (Inr u, s')"
proof
  assume w: "WriteFile L now s path bytes = Some (Inr u, s')"
  from WriteFile_Inr [OF rt named small w] long len ne show False
    by (elim exE conjE) auto
qed

text \<open>
  C2. On a volume with 32-byte blocks a payload of 28 bytes (\<^verbatim>\<open>blockSize - 4\<close>) is stored:
  the file's chain is index block 2 naming the one data block 1. A payload of 29 bytes
  (\<^verbatim>\<open>blockSize - 3\<close>) is not stored in two blocks: \<^verbatim>\<open>writeFileToBlocks\<close> cuts the payload
  in slices of \<^verbatim>\<open>blockSize\<close> bytes, so it asks for one block and hands all 29 bytes to
  \<^verbatim>\<open>writeBlock\<close>, which takes \<^verbatim>\<open>blockSize - 4\<close> at most; \<^verbatim>\<open>WriteFile\<close> returns that
  error and no file is created.
\<close>

theorem WriteFile_block_boundary:
  "unat (blockSize tinyVolume) - 4 = 28
   \<and> map_option fst (WriteFile sampleLib 5 tinyVolume ''/a'' (replicate 28 7)) = Some (Inr ())
   \<and> map_option (\<lambda>r. map_option FirstIndexBlockId (map_of (Files (Root (snd r))) ''a''))
        (WriteFile sampleLib 5 tinyVolume ''/a'' (replicate 28 7)) = Some (Some 2)
   \<and> map_option (\<lambda>r. map_sum id BlockIds (readIndexBlock sampleLib (snd r) 2))
        (WriteFile sampleLib 5 tinyVolume ''/a'' (replicate 28 7)) = Some (Inr [1])
   \<and> map_option fst (WriteFile sampleLib 5 tinyVolume ''/a'' (replicate 29 7))
       = Some (Inl DataExceedsBlockSize)
   \<and> map_option (\<lambda>r. map_of (Files (Root (snd r))) ''a'')
        (WriteFile sampleLib 5 tinyVolume ''/a'' (replicate 29 7)) = Some None"
  by code_simp

text \<open>
  C6. After \<^verbatim>\<open>WriteFile("/a", [1, 2, 3])\<close> on the empty small volume the entry of \<^verbatim>\<open>/a\<close>
  has \<^verbatim>\<open>DataBlockCount\<close> 0, and its chain, index block 2 with next pointer 0, names one
  data block, block 1, which holds the three bytes. \<^verbatim>\<open>WriteFile\<close> sets the first index
  block, the size and the times of an entry and leaves both counts as they were.
\<close>

theorem WriteFile_leaves_count_zero:
  "WriteFile sampleLib 5 tinyVolume ''/a'' [1, 2, 3] = Some (Inr (), storedVolume)
   \<and> map_option DataBlockCount (map_of (Files (Root storedVolume)) ''a'') = Some 0
   \<and> map_option FirstIndexBlockId (map_of (Files (Root storedVolume)) ''a'') = Some 2
   \<and> readIndexBlock sampleLib storedVolume 2
       = Inr \<lparr>BlockIds = [1], Extents = [], NextIndexBlockId = 0, DataSize = 32, Crc32_ib = 2\<rparr>
   \<and> readBlock storedVolume 1 = Inr [1, 2, 3]"
  unfolding storedVolume_value by code_simp

section \<open>Making a directory on a volume opened again\<close>

text \<open>
  C10. On the stored volume opened again, \<^verbatim>\<open>/a\<close> names a file of the root and the root's
  \<^verbatim>\<open>Directories\<close> map is \<^verbatim>\<open>nil\<close>. \<^verbatim>\<open>CreateDirectory("/a")\<close> does not return success
  there, and makes no directory: the assignment
  \<^verbatim>\<open>currentDir.Directories[part] = newDir\<close> of \<^verbatim>\<open>createDirectoryChain\<close> panics. On the
  same volume before it was closed, where the map is allocated, the call succeeds and the
  root holds a file and a directory named \<^verbatim>\<open>a\<close>.
\<close>

theorem CreateDirectory_reopened_volume:
  "map_of (Files (Root reopenedVolume)) ''a'' \<noteq> None
   \<and> map_sum id (\<lambda>(loc, dir, file, isDir). (loc, file \<noteq> None, isDir))
        (findEntryUnsafe (Root reopenedVolume) ''/a'') = Inr ([], True, False)
   \<and> DirectoriesMap (Root reopenedVolume) = None
   \<and> CreateDirectory sampleLib 6 reopenedVolume ''/a'' = (Inl Panic, reopenedVolume)
   \<and> DirectoriesMap (Root storedVolume) = Some []
   \<and> fst (CreateDirectory sampleLib 6 storedVolume ''/a'') = Inr ()
   \<and> map_of (Directories (Root (snd (CreateDirectory sampleLib 6 storedVolume ''/a'')))) ''a'' \<noteq> None
   \<and> map_of (Files (Root (snd (CreateDirectory sampleLib 6 storedVolume ''/a'')))) ''a''
       = map_of (Files (Root storedVolume)) ''a''"
  unfolding reopenedVolume_def storedVolume_value by code_simp

section \<open>Writing an empty payload\<close>








lemma chainBlocks_simps [simp]:
  "chainBlocks [] = []"
  "chainBlocks ((cur, ib) # rest) = namedBlocks cur ib @ chainBlocks rest"
  by (simp_all add: chainBlocks_def)



lemma chain_storedVolume:
  "indexChain sampleLib storedVolume 2
     [(2, \<lparr>BlockIds = [1], Extents = [], NextIndexBlockId = 0, DataSize = 32, Crc32_ib = 2\<rparr>)]
     NullBlockID"
proof -
  have rd: "readIndexBlock sampleLib storedVolume 2
       = Inr \<lparr>BlockIds = [1], Extents = [], NextIndexBlockId = 0, DataSize = 32, Crc32_ib = 2\<rparr>"
    unfolding storedVolume_value by code_simp
  show ?thesis
    by (rule chain_step [OF _ rd]) (simp_all add: NullBlockID_def chain_end)
qed









section \<open>What the verifier accepts\<close>

lemma verifier_range_tests:
  "(\<not> list_ex (\<lambda>blockID. blockID = NullBlockID \<or> blockID > ucast (totalBlocks (bitmap s)))
         (BlockIds ib)
    \<and> \<not> list_ex (\<lambda>extent. StartBlockId extent = NullBlockID
                \<or> StartBlockId extent + BlockCount extent > ucast (totalBlocks (bitmap s)))
          (Extents ib))
   = blocksInRange s ib"
  by (auto simp: blocksInRange_def list_ex_iff list_all_iff not_less)

lemma verifyIndexChain_step:
  assumes "cur \<noteq> NullBlockID" "cur \<notin> visited" "readIndexBlock L s cur = Inr ib"
  shows "(verifyIndexChain L s cur visited = Inr ())
           = (blocksInRange s ib
              \<and> verifyIndexChain L s (NextIndexBlockId ib) (insert cur visited) = Inr ())"
  using assms verifier_range_tests [of s ib]
  by (subst verifyIndexChain.simps) (auto simp del: verifyIndexChain.simps)

lemma verifyIndexChain_stops:
  "verifyIndexChain L s NullBlockID visited = Inr ()"
  "cur \<noteq> NullBlockID \<Longrightarrow> cur \<in> visited \<Longrightarrow> verifyIndexChain L s cur visited = Inl CircularReference"
  "cur \<noteq> NullBlockID \<Longrightarrow> cur \<notin> visited \<Longrightarrow> readIndexBlock L s cur = Inl x
     \<Longrightarrow> verifyIndexChain L s cur visited = Inl x"
  by (subst verifyIndexChain.simps; simp del: verifyIndexChain.simps)+

lemma indexChain_ids:
  "indexChain L s cur chain e \<Longrightarrow> NullBlockID \<notin> fst ` set chain"
  by (induction rule: indexChain.induct) auto

lemma verifyIndexChain_complete:
  assumes "indexChain L s cur chain e" and "e = NullBlockID"
    and "fst ` set chain \<inter> visited = {}" and "distinct (map fst chain)"
    and "\<forall>(c, ib) \<in> set chain. blocksInRange s ib"
  shows "verifyIndexChain L s cur visited = Inr ()"
  using assms
proof (induction arbitrary: visited rule: indexChain.induct)
  case (chain_end L s cur)
  then show ?case by (simp add: verifyIndexChain_stops(1) del: verifyIndexChain.simps)
next
  case (chain_step cur L s ib rest e)
  from chain_step.prems have nv: "cur \<notin> visited" and r: "blocksInRange s ib" by auto
  have "fst ` set rest \<inter> insert cur visited = {}"
    using chain_step.prems by auto
  moreover have "distinct (map fst rest)" "\<forall>(c, ib) \<in> set rest. blocksInRange s ib"
    using chain_step.prems by auto
  ultimately have "verifyIndexChain L s (NextIndexBlockId ib) (insert cur visited) = Inr ()"
    using chain_step.IH [OF chain_step.prems(1)] by blast
  with r show ?case
    unfolding verifyIndexChain_step [OF chain_step.hyps(1) nv chain_step.hyps(2)] by simp
qed

lemma verifyIndexChain_sound:
  "verifyIndexChain L s cur visited = Inr () \<Longrightarrow>
   \<exists>chain. indexChain L s cur chain NullBlockID \<and> fst ` set chain \<inter> visited = {}
         \<and> distinct (map fst chain) \<and> (\<forall>(c, ib) \<in> set chain. blocksInRange s ib)"
proof (induction L s cur visited rule: verifyIndexChain.induct)
  case (1 L s cur visited)
  show ?case
  proof (cases "cur = NullBlockID")
    case True
    then show ?thesis using chain_end [of L s NullBlockID] by auto
  next
    case nz: False
    show ?thesis
    proof (cases "cur \<in> visited")
      case True
      with nz "1.prems" show ?thesis by (simp add: verifyIndexChain_stops(2) del: verifyIndexChain.simps)
    next
      case nv: False
      show ?thesis
      proof (cases "readIndexBlock L s cur")
        case (Inl x)
        with nz nv "1.prems" show ?thesis
          by (simp add: verifyIndexChain_stops(3) del: verifyIndexChain.simps)
      next
        case (Inr ib)
        from "1.prems" have r: "blocksInRange s ib"
          and v: "verifyIndexChain L s (NextIndexBlockId ib) (insert cur visited) = Inr ()"
          unfolding verifyIndexChain_step [OF nz nv Inr] by simp_all
        from r verifier_range_tests [of s ib]
        have t: "\<not> list_ex (\<lambda>blockID. blockID = NullBlockID \<or> blockID > ucast (totalBlocks (bitmap s)))
                     (BlockIds ib)"
          "\<not> list_ex (\<lambda>extent. StartBlockId extent = NullBlockID
                \<or> StartBlockId extent + BlockCount extent > ucast (totalBlocks (bitmap s)))
              (Extents ib)"
          by blast+
        from "1.IH" [OF nz nv Inr t v] obtain rest where
          rest: "indexChain L s (NextIndexBlockId ib) rest NullBlockID"
            "fst ` set rest \<inter> insert cur visited = {}" "distinct (map fst rest)"
            "\<forall>(c, ib) \<in> set rest. blocksInRange s ib"
          by blast
        have "indexChain L s cur ((cur, ib) # rest) NullBlockID"
          using nz Inr rest(1) by (rule chain_step)
        moreover have "fst ` set ((cur, ib) # rest) \<inter> visited = {}"
          using rest(2) nv by auto
        moreover have "distinct (map fst ((cur, ib) # rest))"
          using rest(2,3) by auto
        moreover have "\<forall>(c, ib) \<in> set ((cur, ib) # rest). blocksInRange s ib"
          using rest(4) r by auto
        ultimately show ?thesis by blast
      qed
    qed
  qed
qed

lemma verifyIndexChain_revisit:
  assumes "indexChain L s cur chain e" and "e \<noteq> NullBlockID"
    and "e \<in> fst ` set chain \<union> visited"
  shows "verifyIndexChain L s cur visited \<noteq> Inr ()"
  using assms
proof (induction arbitrary: visited rule: indexChain.induct)
  case (chain_end L s cur)
  then show ?case by (simp add: verifyIndexChain_stops(2) del: verifyIndexChain.simps)
next
  case (chain_step cur L s ib rest e)
  show ?case
  proof (cases "cur \<in> visited")
    case True
    with chain_step.hyps(1) show ?thesis
      by (simp add: verifyIndexChain_stops(2) del: verifyIndexChain.simps)
  next
    case False
    have "e \<in> fst ` set rest \<union> insert cur visited"
      using chain_step.prems by auto
    from chain_step.IH [OF chain_step.prems(1) this] show ?thesis
      unfolding verifyIndexChain_step [OF chain_step.hyps(1) False chain_step.hyps(2)] by simp
  qed
qed

lemma verifyFileIndexBlocks_iff:
  "(verifyFileIndexBlocks L s first = Inr ())
     = (\<exists>chain. indexChain L s first chain NullBlockID \<and> distinct (map fst chain)
              \<and> (\<forall>(c, ib) \<in> set chain. blocksInRange s ib))"
proof
  assume "verifyFileIndexBlocks L s first = Inr ()"
  then have "verifyIndexChain L s first {} = Inr ()"
    by (simp add: verifyFileIndexBlocks_def verifyIndexChain_stops(1) del: verifyIndexChain.simps
        split: if_splits)
  from verifyIndexChain_sound [OF this] show "\<exists>chain. indexChain L s first chain NullBlockID
      \<and> distinct (map fst chain) \<and> (\<forall>(c, ib) \<in> set chain. blocksInRange s ib)"
    by blast
next
  assume "\<exists>chain. indexChain L s first chain NullBlockID \<and> distinct (map fst chain)
              \<and> (\<forall>(c, ib) \<in> set chain. blocksInRange s ib)"
  then obtain chain where c: "indexChain L s first chain NullBlockID" "distinct (map fst chain)"
    "\<forall>(c, ib) \<in> set chain. blocksInRange s ib"
    by blast
  have "verifyIndexChain L s first {} = Inr ()"
    using c(1) refl _ c(2,3) by (rule verifyIndexChain_complete) simp
  then show "verifyFileIndexBlocks L s first = Inr ()"
    by (simp add: verifyFileIndexBlocks_def del: verifyIndexChain.simps)
qed

lemma verifyFileIndexBlocks_revisit:
  assumes "indexChain L s first chain e" and "e \<in> fst ` set chain"
  shows "verifyFileIndexBlocks L s first \<noteq> Inr ()"
proof -
  from indexChain_ids [OF assms(1)] assms(2) have e: "e \<noteq> NullBlockID" by force
  from assms have "chain \<noteq> []" by auto
  with assms(1) have nz: "first \<noteq> NullBlockID" by (auto elim: indexChain.cases)
  from assms(2) have "e \<in> fst ` set chain \<union> {}" by simp
  from verifyIndexChain_revisit [OF assms(1) e this] nz show ?thesis
    by (simp add: verifyFileIndexBlocks_def del: verifyIndexChain.simps)
qed

lemma verifyFiles_iff:
  "(verifyFiles L s fs = Inr ())
     = ((\<forall>m \<in> set (map (\<lambda>(fileName, file). Metadata file) fs).
           verifyMetadataChecksum L (checksumEnabled s) m)
        \<and> (\<forall>file \<in> set (map snd fs). verifyFileIndexBlocks L s (FirstIndexBlockId file) = Inr ()))"
  by (induction fs) (auto split: sum.splits if_splits)

lemma verifyDirectoryIntegrity_unfold:
  "(verifyDirectoryIntegrity L s (DirectoryEntry m fs dm) = Inr ())
     = (verifyMetadataChecksum L (checksumEnabled s) m \<and> verifyFiles L s fs = Inr ()
        \<and> (case dm of None \<Rightarrow> True | Some ds \<Rightarrow> verifyDirectories L s ds = Inr ()))"
  by (auto split: sum.splits option.splits)

lemma verifyDirectories_unfold:
  "(verifyDirectories L s ((dirName, subDir) # rest) = Inr ())
     = (verifyDirectoryIntegrity L s subDir = Inr () \<and> verifyDirectories L s rest = Inr ())"
  by (auto split: sum.splits)

lemma verifyDirectoryIntegrity_iff:
  "(verifyDirectoryIntegrity L s d = Inr ())
     = ((\<forall>m \<in> set (allMetadata d). verifyMetadataChecksum L (checksumEnabled s) m)
        \<and> (\<forall>file \<in> set (allFiles d). verifyFileIndexBlocks L s (FirstIndexBlockId file) = Inr ()))"
  "(verifyDirectories L s ds = Inr ())
     = ((\<forall>m \<in> set (allMetadataIn ds). verifyMetadataChecksum L (checksumEnabled s) m)
        \<and> (\<forall>file \<in> set (allFilesIn ds). verifyFileIndexBlocks L s (FirstIndexBlockId file) = Inr ()))"
proof (induction L s d and L s ds rule: verifyDirectoryIntegrity_verifyDirectories.induct)
  case (1 L s m fs dm)
  let ?V = "verifyMetadataChecksum L (checksumEnabled s)"
  let ?C = "\<lambda>file. verifyFileIndexBlocks L s (FirstIndexBlockId file) = Inr ()"
  show ?case
  proof (cases dm)
    case None
    then show ?thesis
      unfolding verifyDirectoryIntegrity_unfold verifyFiles_iff by auto
  next
    case (Some ds)
    show ?thesis
    proof (cases "?V m \<and> verifyFiles L s fs = Inr ()")
      case False
      then have "\<not> (?V m \<and> (\<forall>m \<in> set (map (\<lambda>(fileName, file). Metadata file) fs). ?V m)
                     \<and> (\<forall>file \<in> set (map snd fs). ?C file))"
        unfolding verifyFiles_iff by blast
      then have "\<not> ((\<forall>m \<in> set (allMetadata (DirectoryEntry m fs dm)). ?V m)
                    \<and> (\<forall>file \<in> set (allFiles (DirectoryEntry m fs dm)). ?C file))"
        by auto
      moreover from False have "verifyDirectoryIntegrity L s (DirectoryEntry m fs dm) \<noteq> Inr ()"
        unfolding verifyDirectoryIntegrity_unfold by blast
      ultimately show ?thesis by blast
    next
      case True
      then have "\<not> \<not> ?V m" by simp
      from "1.IH" [OF this _ Some] True
      have ih: "(verifyDirectories L s ds = Inr ())
         = ((\<forall>m \<in> set (allMetadataIn ds). ?V m) \<and> (\<forall>file \<in> set (allFilesIn ds). ?C file))"
        by simp
      from True have fs: "(\<forall>m \<in> set (map (\<lambda>(fileName, file). Metadata file) fs). ?V m)
                     \<and> (\<forall>file \<in> set (map snd fs). ?C file)"
        unfolding verifyFiles_iff by blast
      have "(verifyDirectoryIntegrity L s (DirectoryEntry m fs dm) = Inr ())
              = (verifyDirectories L s ds = Inr ())"
        unfolding verifyDirectoryIntegrity_unfold using True Some by simp
      also have "\<dots> = ((\<forall>m \<in> set (allMetadata (DirectoryEntry m fs dm)). ?V m)
                    \<and> (\<forall>file \<in> set (allFiles (DirectoryEntry m fs dm)). ?C file))"
        unfolding ih using True fs Some by auto
      finally show ?thesis .
    qed
  qed
next
  case (2 L s)
  show ?case by simp
next
  case (3 L s dirName subDir rest)
  show ?case
  proof (cases "verifyDirectoryIntegrity L s subDir = Inr ()")
    case False
    with "3.IH"(1) show ?thesis
      unfolding verifyDirectories_unfold by auto
  next
    case True
    from "3.IH"(2) [OF True] "3.IH"(1) True show ?thesis
      unfolding verifyDirectories_unfold by auto
  qed
qed


text \<open>
  C4. \<^verbatim>\<open>VerifyIntegrity\<close> returns success exactly when the metadata checksum of the
  root, of every directory and of every file verifies and, for every file entry of the
  tree, the chain from its first index block can be followed to the null pointer, passing
  no index block twice, every index block on it readable by \<^verbatim>\<open>readIndexBlock\<close> (the
  block reads, decodes, and its checksum does not mismatch) and passing the two range
  tests on its data block ids and extents. And it does not return success when, for some
  file entry, a walk along next pointers from its first index block arrives at an index
  block the walk has passed.
\<close>

theorem VerifyIntegrity_iff:
  "((VerifyIntegrity L s = Inr ())
      = ((\<forall>m \<in> set (allMetadata (Root s)). verifyMetadataChecksum L (checksumEnabled s) m)
         \<and> (\<forall>file \<in> set (allFiles (Root s)).
               \<exists>chain. indexChain L s (FirstIndexBlockId file) chain NullBlockID
                     \<and> distinct (map fst chain)
                     \<and> (\<forall>(c, ib) \<in> set chain. blocksInRange s ib))))
   \<and> (\<forall>file chain e. file \<in> set (allFiles (Root s))
          \<and> indexChain L s (FirstIndexBlockId file) chain e \<and> e \<in> fst ` set chain
        \<longrightarrow> VerifyIntegrity L s \<noteq> Inr ())"
proof -
  have root: "Metadata_d (Root s) \<in> set (allMetadata (Root s))"
    by (cases "Root s") simp
  have v: "(VerifyIntegrity L s = Inr ())
      = ((\<forall>m \<in> set (allMetadata (Root s)). verifyMetadataChecksum L (checksumEnabled s) m)
         \<and> (\<forall>file \<in> set (allFiles (Root s)). verifyFileIndexBlocks L s (FirstIndexBlockId file) = Inr ()))"
    using root by (auto simp: VerifyIntegrity_def verifyDirectoryIntegrity_iff(1))
  have a: "(VerifyIntegrity L s = Inr ())
      = ((\<forall>m \<in> set (allMetadata (Root s)). verifyMetadataChecksum L (checksumEnabled s) m)
         \<and> (\<forall>file \<in> set (allFiles (Root s)).
               \<exists>chain. indexChain L s (FirstIndexBlockId file) chain NullBlockID
                     \<and> distinct (map fst chain)
                     \<and> (\<forall>(c, ib) \<in> set chain. blocksInRange s ib)))"
    unfolding v verifyFileIndexBlocks_iff by (rule refl)
  have b: "\<forall>file chain e. file \<in> set (allFiles (Root s))
          \<and> indexChain L s (FirstIndexBlockId file) chain e \<and> e \<in> fst ` set chain
        \<longrightarrow> VerifyIntegrity L s \<noteq> Inr ()"
    using verifyFileIndexBlocks_revisit v by blast
  from a b show ?thesis by (rule conjI)
qed

theorem VerifyIntegrity_iff_witness:
  "map FirstIndexBlockId (allFiles (Root storedVolume)) = [2]
   \<and> indexChain sampleLib storedVolume 2
        [(2, \<lparr>BlockIds = [1], Extents = [], NextIndexBlockId = 0, DataSize = 32, Crc32_ib = 2\<rparr>)]
        NullBlockID
   \<and> VerifyIntegrity sampleLib storedVolume = Inr ()
   \<and> map FirstIndexBlockId (allFiles (Root cyclicVolume)) = [2]
   \<and> indexChain sampleLib cyclicVolume 2
        [(2, \<lparr>BlockIds = [1], Extents = [], NextIndexBlockId = 2, DataSize = 32, Crc32_ib = 4\<rparr>)]
        2
   \<and> VerifyIntegrity sampleLib cyclicVolume \<noteq> Inr ()"
proof -
  let ?ib = "\<lparr>BlockIds = [1], Extents = [], NextIndexBlockId = 0, DataSize = 32, Crc32_ib = 2\<rparr>"
  let ?ic = "\<lparr>BlockIds = [1], Extents = [], NextIndexBlockId = 2, DataSize = 32, Crc32_ib = 4\<rparr>"
  have files: "map FirstIndexBlockId (allFiles (Root storedVolume)) = [2]"
    unfolding storedVolume_value by code_simp
  have meta: "\<forall>m \<in> set (allMetadata (Root storedVolume)).
                verifyMetadataChecksum sampleLib (checksumEnabled storedVolume) m"
    unfolding storedVolume_value by code_simp
  have range: "blocksInRange storedVolume ?ib"
    unfolding storedVolume_value by code_simp
  have chains: "\<forall>file \<in> set (allFiles (Root storedVolume)).
               \<exists>chain. indexChain sampleLib storedVolume (FirstIndexBlockId file) chain NullBlockID
                     \<and> distinct (map fst chain)
                     \<and> (\<forall>(c, ib) \<in> set chain. blocksInRange storedVolume ib)"
  proof
    fix f assume "f \<in> set (allFiles (Root storedVolume))"
    then have "FirstIndexBlockId f \<in> set (map FirstIndexBlockId (allFiles (Root storedVolume)))"
      by simp
    then have "FirstIndexBlockId f = 2" unfolding files by simp
    with chain_storedVolume range
    show "\<exists>chain. indexChain sampleLib storedVolume (FirstIndexBlockId f) chain NullBlockID
                     \<and> distinct (map fst chain)
                     \<and> (\<forall>(c, ib) \<in> set chain. blocksInRange storedVolume ib)"
      by (intro exI [of _ "[(2, ?ib)]"]) simp
  qed
  have ok: "VerifyIntegrity sampleLib storedVolume = Inr ()"
    using VerifyIntegrity_iff [of sampleLib storedVolume] meta chains by blast
  have cfiles: "map FirstIndexBlockId (allFiles (Root cyclicVolume)) = [2]"
    unfolding cyclicVolume_def storedVolume_value by code_simp
  then obtain f where f: "f \<in> set (allFiles (Root cyclicVolume))" "FirstIndexBlockId f = 2"
    by (cases "allFiles (Root cyclicVolume)") auto
  have rd: "readIndexBlock sampleLib cyclicVolume 2 = Inr ?ic"
    unfolding cyclicVolume_def storedVolume_value by code_simp
  have cyc: "indexChain sampleLib cyclicVolume 2 [(2, ?ic)] 2"
    using chain_step [OF _ rd, of "[]" 2] by (simp add: NullBlockID_def chain_end)
  have "VerifyIntegrity sampleLib cyclicVolume \<noteq> Inr ()"
    using VerifyIntegrity_iff [of sampleLib cyclicVolume] f cyc by force
  with files chain_storedVolume ok cfiles cyc show ?thesis by blast
qed

text \<open>
  An index block that reads with a matching checksum, ends its chain and names a data
  block above the bitmap's total is rejected, with every metadata checksum of the volume
  verifying: no checksum mismatches and no chain closes on itself, and the verifier
  returns its invalid-data-block error.
\<close>

theorem VerifyIntegrity_stray_block:
  "map (verifyMetadataChecksum sampleLib (checksumEnabled strayVolume)) (allMetadata (Root strayVolume))
     = [True, True]
   \<and> map FirstIndexBlockId (allFiles (Root strayVolume)) = [2]
   \<and> readIndexBlock sampleLib strayVolume 2
       = Inr \<lparr>BlockIds = [9], Extents = [], NextIndexBlockId = 0, DataSize = 32, Crc32_ib = 2\<rparr>
   \<and> indexChecksum sampleLib
        \<lparr>BlockIds = [9], Extents = [], NextIndexBlockId = 0, DataSize = 32, Crc32_ib = 2\<rparr> = 2
   \<and> totalBlocks (bitmap strayVolume) = 8
   \<and> VerifyIntegrity sampleLib strayVolume = Inl InvalidDataBlockID"
  unfolding strayVolume_def storedVolume_value by code_simp

end
